theory Spec2Isabelle
  imports Main "HOL-Library.Word"
begin

unbundle bit_operations_syntax

section \<open>Machine types and platform constants\<close>

text \<open>
  Pointers, \<open>size_t\<close>, \<open>uintptr_t\<close> and \<open>ngx_uint_t\<close> are 64-bit words (LP64); the
  null pointer is the word 0. Radix keys and masks are \<open>uint32_t\<close>.
\<close>

type_synonym addr = "64 word"
type_synonym size_t = "64 word"
type_synonym uintptr_t = "64 word"
type_synonym ngx_uint_t = "64 word"
type_synonym uint32_t = "32 word"

text \<open>
  Modelled from the spec: the platform constants and structure sizes that the two C files
  take from headers outside the source tree (\<open>ngx_config.h\<close>, \<open>ngx_palloc.h\<close>,
  \<open>ngx_alloc.h\<close>). The values are those of amd64 with 4K pages: the pool alignment is 16,
  the small-allocation alignment is \<open>sizeof(unsigned long)\<close>, and
  \<open>NGX_MAX_ALLOC_FROM_POOL\<close> is one page minus one.
\<close>

definition ngx_pagesize :: size_t where
  "ngx_pagesize = 4096"

definition NGX_MAX_ALLOC_FROM_POOL :: size_t where
  "NGX_MAX_ALLOC_FROM_POOL = ngx_pagesize - 1"

definition NGX_POOL_ALIGNMENT :: size_t where
  "NGX_POOL_ALIGNMENT = 16"

definition NGX_ALIGNMENT :: size_t where
  "NGX_ALIGNMENT = 8"

definition sizeof_ngx_pool_data_t :: size_t where
  "sizeof_ngx_pool_data_t = 32"

definition sizeof_ngx_pool_t :: size_t where
  "sizeof_ngx_pool_t = 80"

definition sizeof_ngx_pool_large_t :: size_t where
  "sizeof_ngx_pool_large_t = 16"

definition sizeof_ngx_pool_cleanup_t :: size_t where
  "sizeof_ngx_pool_cleanup_t = 24"

definition sizeof_ngx_radix_node_t :: size_t where
  "sizeof_ngx_radix_node_t = 32"

text \<open>
  Modelled from the spec: the macro \<open>ngx_align_ptr(p, a)\<close> of \<open>ngx_config.h\<close>,
  \<open>(p + (a - 1)) & ~(a - 1)\<close>, which rounds \<open>p\<close> up to a multiple of the power of two
  \<open>a\<close>.
\<close>

definition ngx_align_ptr :: "addr \<Rightarrow> size_t \<Rightarrow> addr" where
  "ngx_align_ptr p a = (p + (a - 1)) AND NOT (a - 1)"

datatype ngx_rc = NGX_OK | NGX_ERROR | NGX_BUSY | NGX_DECLINED


section \<open>The pool (\<open>ngx_palloc.c\<close>)\<close>

subsection \<open>Data model\<close>

text \<open>
  The chunk chain \<open>pool->d\<close>, \<open>pool->d.next\<close>, \<dots> is the list \<open>chunks\<close>; the field
  \<open>next\<close> of a chunk is its successor in the list and is null for the last one. A pointer
  into the chain (\<open>current\<close>, the loop variable \<open>p\<close>) is an index into the list. The large
  list is a list in link order, head first.

  The cleanup entries are kept where \<open>ngx_palloc\<close> has put them: \<open>cmem\<close> holds, for every
  address at which an entry has been written, the entry that is there now, and \<open>cleanup\<close>
  is the pointer \<open>pool->cleanup\<close> to the head of the stack, the entries being linked
  through their field \<open>next\<close>. An entry written at an address that a linked entry
  occupies replaces that entry, as it does in C. What other writes to chunk memory do to
  the bytes of an entry (the headers of the large list, the data of the caller) is not
  modelled.
\<close>

record ngx_pool_data_t =
  base :: addr
  d_last :: addr
  d_end :: addr
  d_failed :: ngx_uint_t

record ngx_pool_large_t =
  alloc :: addr

record ngx_pool_cleanup_t =
  handler :: addr
  data :: addr
  next_c :: addr

text \<open>
  What the pool does to the outside world is a log of events: a call of the underlying
  \<open>ngx_free\<close>, and a call of a cleanup handler on its data.
\<close>

datatype event = Free addr | Run addr addr

text \<open>
  Besides the fields of \<open>ngx_pool_t\<close>, the state carries the environment: \<open>os\<close> lists the
  answers that the underlying allocator (\<open>ngx_alloc\<close>, \<open>ngx_memalign\<close>) will give to
  the coming requests, a null answer or an exhausted list being a failed allocation, and
  \<open>trace\<close> is the log of events so far.
\<close>

record ngx_pool_t =
  chunks :: "ngx_pool_data_t list"
  max_p :: size_t
  current :: nat
  chain :: addr
  large :: "ngx_pool_large_t list"
  cleanup :: addr
  cmem :: "(addr \<times> ngx_pool_cleanup_t) list"
  log :: addr
  os :: "addr list"
  trace :: "event list"

text \<open>Reading and writing the cleanup entry at an address.\<close>

definition centry :: "(addr \<times> ngx_pool_cleanup_t) list \<Rightarrow> addr \<Rightarrow> ngx_pool_cleanup_t" where
  "centry m a =
     (case map_of m a of
        None \<Rightarrow> \<lparr>handler = 0, data = 0, next_c = 0\<rparr>
      | Some e \<Rightarrow> e)"

definition cwrite ::
  "addr \<Rightarrow> ngx_pool_cleanup_t \<Rightarrow> (addr \<times> ngx_pool_cleanup_t) list
     \<Rightarrow> (addr \<times> ngx_pool_cleanup_t) list" where
  "cwrite a e m = (a, e) # filter (\<lambda>x. fst x \<noteq> a) m"

subsection \<open>The underlying allocator\<close>

definition ngx_alloc :: "size_t \<Rightarrow> ngx_pool_t \<Rightarrow> addr \<times> ngx_pool_t" where
  "ngx_alloc sz pool =
     (case os pool of [] \<Rightarrow> (0, pool) | a # as \<Rightarrow> (a, pool\<lparr>os := as\<rparr>))"

definition ngx_memalign :: "size_t \<Rightarrow> size_t \<Rightarrow> ngx_pool_t \<Rightarrow> addr \<times> ngx_pool_t" where
  "ngx_memalign alignment sz pool =
     (case os pool of [] \<Rightarrow> (0, pool) | a # as \<Rightarrow> (a, pool\<lparr>os := as\<rparr>))"

definition ngx_free :: "addr \<Rightarrow> ngx_pool_t \<Rightarrow> ngx_pool_t" where
  "ngx_free p pool = pool\<lparr>trace := trace pool @ [Free p]\<rparr>"

subsection \<open>Creation\<close>

definition ngx_create_pool :: "size_t \<Rightarrow> addr \<Rightarrow> addr list \<Rightarrow> ngx_pool_t option" where
  "ngx_create_pool sz lg answers =
     (case answers of
        [] \<Rightarrow> None
      | p # rest \<Rightarrow>
          if p = 0 then None
          else Some \<lparr>chunks = [\<lparr>base = p, d_last = p + sizeof_ngx_pool_t, d_end = p + sz,
                                d_failed = 0\<rparr>],
                     max_p = (if sz - sizeof_ngx_pool_t < NGX_MAX_ALLOC_FROM_POOL
                              then sz - sizeof_ngx_pool_t else NGX_MAX_ALLOC_FROM_POOL),
                     current = 0, chain = 0, large = [], cleanup = 0, cmem = [],
                     log = lg,
                     os = rest, trace = []\<rparr>)"

subsection \<open>Destruction and reset\<close>

text \<open>
  The first loop of \<open>ngx_destroy_pool\<close>,
  \<open>for (c = pool->cleanup; c; c = c->next) { if (c->handler) { c->handler(c->data); } }\<close>,
  from the entry at \<open>c\<close> with the log \<open>tr\<close>. A handler is an address, and its call an
  event of the log. The loop follows the links until it meets null, so the result is an
  option: \<open>None\<close> is a loop that never ends.
\<close>

partial_function (option) run_cleanups ::
  "(addr \<times> ngx_pool_cleanup_t) list \<Rightarrow> addr \<Rightarrow> event list \<Rightarrow> event list option" where
  "run_cleanups m c tr =
     (if c = 0 then Some tr
      else run_cleanups m (next_c (centry m c))
             (if handler (centry m c) \<noteq> 0
              then tr @ [Run (handler (centry m c)) (data (centry m c))] else tr))"

definition free_larges :: "ngx_pool_large_t list \<Rightarrow> event list" where
  "free_larges ls = map (\<lambda>l. Free (alloc l)) (filter (\<lambda>l. alloc l \<noteq> 0) ls)"

definition ngx_destroy_pool :: "ngx_pool_t \<Rightarrow> event list option" where
  "ngx_destroy_pool pool =
     (case run_cleanups (cmem pool) (cleanup pool) (trace pool) of
        None \<Rightarrow> None
      | Some tr \<Rightarrow>
          Some (tr @ free_larges (large pool) @ map (\<lambda>p. Free (base p)) (chunks pool)))"

definition ngx_reset_pool :: "ngx_pool_t \<Rightarrow> ngx_pool_t" where
  "ngx_reset_pool pool =
     pool\<lparr>trace := trace pool @ free_larges (large pool),
          chunks := map (\<lambda>p. p\<lparr>d_last := base p + sizeof_ngx_pool_t, d_failed := 0\<rparr>)
                        (chunks pool),
          current := 0,
          chain := 0,
          large := []\<rparr>"

subsection \<open>Small allocation\<close>

text \<open>
  The \<open>do \<dots> while (p)\<close> search of \<open>ngx_palloc\<close> from the chunk with index \<open>i\<close>. The
  comparison \<open>(size_t) (p->d.end - m) >= size\<close> is unsigned, on the wrapped difference.
\<close>

function palloc_scan ::
  "ngx_pool_data_t list \<Rightarrow> nat \<Rightarrow> size_t \<Rightarrow> (addr \<times> ngx_pool_data_t list) option" where
  "palloc_scan cs i sz =
     (if i < length cs then
        let p = cs ! i; m = ngx_align_ptr (d_last p) NGX_ALIGNMENT in
        if d_end p - m \<ge> sz then Some (m, cs[i := p\<lparr>d_last := m + sz\<rparr>])
        else palloc_scan cs (i + 1) sz
      else None)"
  by pat_completeness auto
termination
  by (relation "measure (\<lambda>(cs, i, sz). length cs - i)") auto


text \<open>
  The loop of \<open>ngx_palloc_block\<close>:
  \<open>for (p = current; p->d.next; p = p->d.next) { if (p->d.failed++ > 4) current = p->d.next; }\<close>.
  It returns the chain with the counters updated and the new value of \<open>current\<close>.
\<close>

function block_walk ::
  "ngx_pool_data_t list \<Rightarrow> nat \<Rightarrow> nat \<Rightarrow> ngx_pool_data_t list \<times> nat" where
  "block_walk cs p cur =
     (if p + 1 < length cs then
        block_walk (cs[p := (cs ! p)\<lparr>d_failed := d_failed (cs ! p) + 1\<rparr>]) (p + 1)
          (if d_failed (cs ! p) > 4 then p + 1 else cur)
      else (cs, cur))"
  by pat_completeness auto
termination
  by (relation "measure (\<lambda>(cs, p, cur). length cs - p)") auto

definition ngx_palloc_block :: "ngx_pool_t \<Rightarrow> size_t \<Rightarrow> addr \<times> ngx_pool_t" where
  "ngx_palloc_block pool sz =
     (let psize = d_end (hd (chunks pool)) - base (hd (chunks pool));
          (m, pool1) = ngx_memalign NGX_POOL_ALIGNMENT psize pool
      in if m = 0 then (0, pool1)
         else
           let m' = ngx_align_ptr (m + sizeof_ngx_pool_data_t) NGX_ALIGNMENT;
               new = \<lparr>base = m, d_last = m' + sz, d_end = m + psize, d_failed = 0\<rparr>;
               (cs, cur) = block_walk (chunks pool1) (current pool1) (current pool1)
           in (m', pool1\<lparr>chunks := cs @ [new], current := cur\<rparr>))"

subsection \<open>Large allocation\<close>

text \<open>
  The search of \<open>ngx_palloc_large\<close> for a tombstone:
  \<open>for (large = pool->large; large; large = large->next)
     { if (large->alloc == NULL) { large->alloc = p; return p; } if (n++ > 3) break; }\<close>.
\<close>

fun large_reuse ::
  "ngx_pool_large_t list \<Rightarrow> ngx_uint_t \<Rightarrow> addr \<Rightarrow> ngx_pool_large_t list option" where
  "large_reuse [] n p = None"
| "large_reuse (l # ls) n p =
     (if alloc l = 0 then Some (l\<lparr>alloc := p\<rparr> # ls)
      else if n > 3 then None
      else map_option ((#) l) (large_reuse ls (n + 1) p))"

function ngx_palloc :: "ngx_pool_t \<Rightarrow> size_t \<Rightarrow> addr \<times> ngx_pool_t"
  and ngx_palloc_large :: "ngx_pool_t \<Rightarrow> size_t \<Rightarrow> addr \<times> ngx_pool_t" where
  "ngx_palloc pool sz =
     (if sz \<le> max_p pool then
        (case palloc_scan (chunks pool) (current pool) sz of
           Some (m, cs) \<Rightarrow> (m, pool\<lparr>chunks := cs\<rparr>)
         | None \<Rightarrow> ngx_palloc_block pool sz)
      else ngx_palloc_large pool sz)"
| "ngx_palloc_large pool sz =
     (case ngx_alloc sz pool of
        (p, pool1) \<Rightarrow>
          if p = 0 then (0, pool1)
          else
            (case large_reuse (large pool1) 0 p of
               Some ls \<Rightarrow> (p, pool1\<lparr>large := ls\<rparr>)
             | None \<Rightarrow>
                 (case ngx_palloc pool1 sizeof_ngx_pool_large_t of
                    (l, pool2) \<Rightarrow>
                      if l = 0 then (0, ngx_free p pool2)
                      else (p, pool2\<lparr>large := \<lparr>alloc = p\<rparr> # large pool2\<rparr>))))"
  by pat_completeness auto
termination
  by (relation "measures [\<lambda>x. case x of Inl (pool, sz) \<Rightarrow> length (os pool)
                                        | Inr (pool, sz) \<Rightarrow> length (os pool),
                          \<lambda>x. case x of Inl _ \<Rightarrow> 1 | Inr _ \<Rightarrow> 0]")
     (auto simp: ngx_alloc_def split: list.splits)


definition ngx_pmemalign :: "ngx_pool_t \<Rightarrow> size_t \<Rightarrow> size_t \<Rightarrow> addr \<times> ngx_pool_t" where
  "ngx_pmemalign pool sz alignment =
     (case ngx_memalign alignment sz pool of
        (p, pool1) \<Rightarrow>
          if p = 0 then (0, pool1)
          else
            (case ngx_palloc pool1 sizeof_ngx_pool_large_t of
               (l, pool2) \<Rightarrow>
                 if l = 0 then (0, ngx_free p pool2)
                 else (p, pool2\<lparr>large := \<lparr>alloc = p\<rparr> # large pool2\<rparr>)))"

subsection \<open>Freeing a large allocation\<close>

text \<open>
  The loop of \<open>ngx_pfree\<close>: the first entry whose \<open>alloc\<close> equals \<open>p\<close> is cleared. The
  result is \<open>None\<close> when the list ends without a match.
\<close>

fun pfree_walk :: "ngx_pool_large_t list \<Rightarrow> addr \<Rightarrow> ngx_pool_large_t list option" where
  "pfree_walk [] p = None"
| "pfree_walk (l # ls) p =
     (if p = alloc l then Some (l\<lparr>alloc := 0\<rparr> # ls)
      else map_option ((#) l) (pfree_walk ls p))"

definition ngx_pfree :: "ngx_pool_t \<Rightarrow> addr \<Rightarrow> ngx_rc \<times> ngx_pool_t" where
  "ngx_pfree pool p =
     (case pfree_walk (large pool) p of
        Some ls \<Rightarrow> (NGX_OK, (ngx_free p pool)\<lparr>large := ls\<rparr>)
      | None \<Rightarrow> (NGX_DECLINED, pool))"

subsection \<open>Cleanup registration\<close>

text \<open>
  \<open>ngx_pool_cleanup_add\<close> returns the address of the new entry, which is then the head
  of the cleanup stack, or null. The entry is written at the address that \<open>ngx_palloc\<close>
  has returned: \<open>c->data\<close> first, also when the allocation of the data has failed, then
  \<open>c->handler = NULL\<close> and \<open>c->next = p->cleanup\<close>.
\<close>

definition ngx_pool_cleanup_add :: "ngx_pool_t \<Rightarrow> size_t \<Rightarrow> addr \<times> ngx_pool_t" where
  "ngx_pool_cleanup_add p sz =
     (case ngx_palloc p sizeof_ngx_pool_cleanup_t of
        (c, p1) \<Rightarrow>
          if c = 0 then (0, p1)
          else if sz \<noteq> 0 then
            (case ngx_palloc p1 sz of
               (dt, p2) \<Rightarrow>
                 if dt = 0
                 then (0, p2\<lparr>cmem := cwrite c ((centry (cmem p2) c)\<lparr>data := 0\<rparr>) (cmem p2)\<rparr>)
                 else (c, p2\<lparr>cmem := cwrite c \<lparr>handler = 0, data = dt, next_c = cleanup p2\<rparr>
                                          (cmem p2),
                             cleanup := c\<rparr>))
          else (c, p1\<lparr>cmem := cwrite c \<lparr>handler = 0, data = 0, next_c = cleanup p1\<rparr> (cmem p1),
                      cleanup := c\<rparr>))"

text \<open>
  The caller's half of a registration: the assignment \<open>c->handler = h\<close> on the entry \<open>c\<close>
  that \<open>ngx_pool_cleanup_add\<close> has returned.
\<close>

definition set_handler :: "ngx_pool_t \<Rightarrow> addr \<Rightarrow> addr \<Rightarrow> ngx_pool_t" where
  "set_handler p c h = p\<lparr>cmem := cwrite c ((centry (cmem p) c)\<lparr>handler := h\<rparr>) (cmem p)\<rparr>"


text \<open>
  The defining equations of the loops are unconditional and recursive, so they are unfolded
  by hand and never by the simplifier.
\<close>

declare palloc_scan.simps [simp del]
declare block_walk.simps [simp del]
declare ngx_palloc.simps [simp del]
declare ngx_palloc_large.simps [simp del]
declare run_cleanups.simps [code]

section \<open>The radix tree (\<open>ngx_radix_tree.c\<close>)\<close>

subsection \<open>Data model\<close>

text \<open>
  Nodes live in memory: \<open>nodes\<close> maps the address of a node to its contents, and the
  pointers \<open>right\<close>, \<open>left\<close> and \<open>parent\<close> are addresses, null being 0. The tree handle
  carries the pool it allocates from; the pool is passed along with the handle.
\<close>

record ngx_radix_node_t =
  right :: addr
  left :: addr
  parent :: addr
  "value" :: uintptr_t

record ngx_radix_tree_t =
  root :: addr
  pool :: ngx_pool_t
  free :: addr
  start :: addr
  size_r :: size_t
  nodes :: "addr \<Rightarrow> ngx_radix_node_t"

definition NGX_RADIX_NO_VALUE :: uintptr_t where
  "NGX_RADIX_NO_VALUE = - 1"

definition sizeof_ngx_radix_tree_t :: size_t where
  "sizeof_ngx_radix_tree_t = 40"

text \<open>Dereferencing a null pointer is a fault, which ends the operation.\<close>

datatype fault = NullDeref

subsection \<open>Node allocation\<close>

definition ngx_radix_alloc :: "ngx_radix_tree_t \<Rightarrow> addr \<times> ngx_radix_tree_t" where
  "ngx_radix_alloc tree =
     (if free tree \<noteq> 0 then
        (free tree, tree\<lparr>free := right (nodes tree (free tree))\<rparr>)
      else if size_r tree < sizeof_ngx_radix_node_t then
        (case ngx_pmemalign (pool tree) ngx_pagesize ngx_pagesize of
           (s, pool1) \<Rightarrow>
             if s = 0 then (0, tree\<lparr>start := 0, pool := pool1\<rparr>)
             else (s, tree\<lparr>start := s + sizeof_ngx_radix_node_t,
                           size_r := ngx_pagesize - sizeof_ngx_radix_node_t,
                           pool := pool1\<rparr>))
      else
        (start tree, tree\<lparr>start := start tree + sizeof_ngx_radix_node_t,
                          size_r := size_r tree - sizeof_ngx_radix_node_t\<rparr>))"

subsection \<open>Insertion\<close>

text \<open>
  The loops over the bits of the mask end because \<open>bit >>= 1\<close> decreases a \<open>bit\<close> that
  is not zero.
\<close>

lemma shift_right_decreases:
  fixes b msk :: uint32_t
  shows "b AND msk \<noteq> 0 \<Longrightarrow> unat (drop_bit (Suc 0) b) < unat b"
proof -
  assume "b AND msk \<noteq> 0"
  then have "b \<noteq> 0" by auto
  then have "0 < unat b" by (simp add: unat_gt_0)
  then show ?thesis by (simp add: drop_bit_eq_div unat_div)
qed

text \<open>
  The first loop of \<open>ngx_radix32tree_insert\<close>, from the state \<open>(bit, node, next)\<close>. It
  returns the state in which the loop is left.
\<close>

function insert_descend ::
  "(addr \<Rightarrow> ngx_radix_node_t) \<Rightarrow> uint32_t \<Rightarrow> uint32_t \<Rightarrow> uint32_t \<Rightarrow> addr \<Rightarrow> addr
     \<Rightarrow> uint32_t \<times> addr \<times> addr" where
  "insert_descend m key msk b node next =
     (if b AND msk \<noteq> 0 then
        (let next' = (if key AND b \<noteq> 0 then right (m node) else left (m node))
         in if next' = 0 then (b, node, next')
            else insert_descend m key msk (drop_bit 1 b) next' next')
      else (b, node, next))"
  by pat_completeness auto
termination
  by (relation "measure (\<lambda>(m, key, msk, b, node, next). unat b)") (auto simp: shift_right_decreases)

text \<open>
  The second loop, which allocates the missing nodes below \<open>node\<close>. The result is the
  last node, or \<open>None\<close> when \<open>ngx_radix_alloc\<close> has returned null, and the tree as the
  loop leaves it.
\<close>

function insert_extend ::
  "ngx_radix_tree_t \<Rightarrow> uint32_t \<Rightarrow> uint32_t \<Rightarrow> uint32_t \<Rightarrow> addr
     \<Rightarrow> addr option \<times> ngx_radix_tree_t" where
  "insert_extend tree key msk b node =
     (if b AND msk \<noteq> 0 then
        (case ngx_radix_alloc tree of
           (next, t1) \<Rightarrow>
             if next = 0 then (None, t1)
             else
               let m1 = (nodes t1)(next := \<lparr>right = 0, left = 0, parent = node,
                                           value = NGX_RADIX_NO_VALUE\<rparr>);
                   m2 = (if key AND b \<noteq> 0 then m1(node := (m1 node)\<lparr>right := next\<rparr>)
                         else m1(node := (m1 node)\<lparr>left := next\<rparr>))
               in insert_extend (t1\<lparr>nodes := m2\<rparr>) key msk (drop_bit 1 b) next)
      else (Some node, tree))"
  by pat_completeness auto
termination
  by (relation "measure (\<lambda>(tree, key, msk, b, node). unat b)") (auto simp: shift_right_decreases)

text \<open>
  A null \<open>tree->root\<close> is dereferenced on every path through the function: by the first
  loop when the top bit of the mask is set, by \<open>node->value\<close> otherwise.
\<close>

definition ngx_radix32tree_insert ::
  "ngx_radix_tree_t \<Rightarrow> uint32_t \<Rightarrow> uint32_t \<Rightarrow> uintptr_t
     \<Rightarrow> fault + ngx_rc \<times> ngx_radix_tree_t" where
  "ngx_radix32tree_insert tree key msk v =
     (if root tree = 0 then Inl NullDeref
      else
        (case insert_descend (nodes tree) key msk 0x80000000 (root tree) (root tree) of
           (b, node, next) \<Rightarrow>
             if next \<noteq> 0 then
               (if value (nodes tree node) \<noteq> NGX_RADIX_NO_VALUE then Inr (NGX_BUSY, tree)
                else Inr (NGX_OK,
                       tree\<lparr>nodes := (nodes tree)(node := (nodes tree node)\<lparr>value := v\<rparr>)\<rparr>))
             else
               (case insert_extend tree key msk b node of
                  (None, t1) \<Rightarrow> Inr (NGX_ERROR, t1)
                | (Some nd, t1) \<Rightarrow>
                    Inr (NGX_OK,
                      t1\<lparr>nodes := (nodes t1)(nd := (nodes t1 nd)\<lparr>value := v\<rparr>)\<rparr>))))"

subsection \<open>Deletion\<close>

function delete_descend ::
  "(addr \<Rightarrow> ngx_radix_node_t) \<Rightarrow> uint32_t \<Rightarrow> uint32_t \<Rightarrow> uint32_t \<Rightarrow> addr \<Rightarrow> addr" where
  "delete_descend m key msk b node =
     (if node \<noteq> 0 \<and> b AND msk \<noteq> 0 then
        delete_descend m key msk (drop_bit 1 b)
          (if key AND b \<noteq> 0 then right (m node) else left (m node))
      else node)"
  by pat_completeness auto
termination
  by (relation "measure (\<lambda>(m, key, msk, b, node). unat b)") (auto simp: shift_right_decreases)

text \<open>
  The \<open>for ( ;; )\<close> loop of the delete, entered with a childless \<open>node\<close>. The loop follows
  parent pointers and has no bound of its own, so the result is an option: \<open>None\<close> is a
  loop that never ends. \<open>node->parent->right\<close> on a null \<open>node->parent\<close> is a fault.
\<close>

partial_function (option) delete_detach ::
  "ngx_radix_tree_t \<Rightarrow> addr \<Rightarrow> (fault + ngx_radix_tree_t) option" where
  "delete_detach tree node =
     (if parent (nodes tree node) = 0 then Some (Inl NullDeref)
      else
        let m = nodes tree;
            par = parent (m node);
            m1 = (if right (m par) = node then m(par := (m par)\<lparr>right := 0\<rparr>)
                  else m(par := (m par)\<lparr>left := 0\<rparr>));
            m2 = m1(node := (m1 node)\<lparr>right := free tree\<rparr>);
            t1 = tree\<lparr>nodes := m2, free := node\<rparr>;
            node' = parent (m2 node)
        in if right (m2 node') \<noteq> 0 \<or> left (m2 node') \<noteq> 0 then Some (Inr t1)
           else if value (m2 node') \<noteq> NGX_RADIX_NO_VALUE then Some (Inr t1)
           else if parent (m2 node') = 0 then Some (Inr t1)
           else delete_detach t1 node')"

definition ngx_radix32tree_delete ::
  "ngx_radix_tree_t \<Rightarrow> uint32_t \<Rightarrow> uint32_t
     \<Rightarrow> (fault + ngx_rc \<times> ngx_radix_tree_t) option" where
  "ngx_radix32tree_delete tree key msk =
     (let node = delete_descend (nodes tree) key msk 0x80000000 (root tree)
      in if node = 0 then Some (Inr (NGX_ERROR, tree))
         else if right (nodes tree node) \<noteq> 0 \<or> left (nodes tree node) \<noteq> 0 then
           (if value (nodes tree node) \<noteq> NGX_RADIX_NO_VALUE then
              Some (Inr (NGX_OK,
                tree\<lparr>nodes := (nodes tree)
                         (node := (nodes tree node)\<lparr>value := NGX_RADIX_NO_VALUE\<rparr>)\<rparr>))
            else Some (Inr (NGX_ERROR, tree)))
         else
           (case delete_detach tree node of
              None \<Rightarrow> None
            | Some (Inl f) \<Rightarrow> Some (Inl f)
            | Some (Inr t1) \<Rightarrow> Some (Inr (NGX_OK, t1))))"

subsection \<open>Lookup\<close>

text \<open>
  The loop of \<open>ngx_radix32tree_find\<close> runs until \<open>node\<close> is null; \<open>None\<close> is a loop that
  never ends.
\<close>

partial_function (option) find_loop ::
  "(addr \<Rightarrow> ngx_radix_node_t) \<Rightarrow> uint32_t \<Rightarrow> uint32_t \<Rightarrow> uintptr_t \<Rightarrow> addr
     \<Rightarrow> uintptr_t option" where
  "find_loop m key b v node =
     (if node \<noteq> 0 then
        find_loop m key (drop_bit 1 b)
          (if value (m node) \<noteq> NGX_RADIX_NO_VALUE then value (m node) else v)
          (if key AND b \<noteq> 0 then right (m node) else left (m node))
      else Some v)"

definition ngx_radix32tree_find :: "ngx_radix_tree_t \<Rightarrow> uint32_t \<Rightarrow> uintptr_t option" where
  "ngx_radix32tree_find tree key =
     find_loop (nodes tree) key 0x80000000 NGX_RADIX_NO_VALUE (root tree)"

subsection \<open>Creation and preallocation\<close>

text \<open>
  The inner \<open>do \<dots> while (key)\<close> loop of \<open>ngx_radix_tree_create\<close>, which inserts the
  keys of one level. Its result is \<open>None\<close> when it never ends, a fault, \<open>Inr None\<close> when an
  insert has not returned \<open>NGX_OK\<close> and the creation returns null, and the tree otherwise.
\<close>

partial_function (option) prealloc_level ::
  "ngx_radix_tree_t \<Rightarrow> uint32_t \<Rightarrow> uint32_t \<Rightarrow> uint32_t
     \<Rightarrow> (fault + ngx_radix_tree_t option) option" where
  "prealloc_level tree key msk inc =
     (case ngx_radix32tree_insert tree key msk NGX_RADIX_NO_VALUE of
        Inl f \<Rightarrow> Some (Inl f)
      | Inr (rc, t1) \<Rightarrow>
          if rc \<noteq> NGX_OK then Some (Inr None)
          else if key + inc \<noteq> 0 then prealloc_level t1 (key + inc) msk inc
          else Some (Inr (Some t1)))"

text \<open>
  The outer \<open>while (preallocate--)\<close> loop. The counter is an \<open>ngx_int_t\<close>, taken as a
  64-bit word: the loop counts down to 0, through the wrap-around when it starts negative.
\<close>

function prealloc_levels ::
  "ngx_radix_tree_t \<Rightarrow> uint32_t \<Rightarrow> uint32_t \<Rightarrow> 64 word
     \<Rightarrow> (fault + ngx_radix_tree_t option) option" where
  "prealloc_levels tree msk inc preallocate =
     (if preallocate \<noteq> 0 then
        (let msk' = drop_bit 1 msk OR 0x80000000 in
         case prealloc_level tree 0 msk' inc of
           None \<Rightarrow> None
         | Some (Inl f) \<Rightarrow> Some (Inl f)
         | Some (Inr None) \<Rightarrow> Some (Inr None)
         | Some (Inr (Some t1)) \<Rightarrow>
             prealloc_levels t1 msk' (drop_bit 1 inc) (preallocate - 1))
      else Some (Inr (Some tree)))"
  by pat_completeness auto
termination
  by (relation "measure (\<lambda>(tree, msk, inc, preallocate). unat preallocate)")
     (auto simp: unat_minus_one unat_gt_0)

definition ngx_radix_tree_create ::
  "ngx_pool_t \<Rightarrow> 64 word \<Rightarrow> (fault + ngx_radix_tree_t option) option" where
  "ngx_radix_tree_create pl preallocate =
     (case ngx_palloc pl sizeof_ngx_radix_tree_t of
        (tp, pool1) \<Rightarrow>
          if tp = 0 then Some (Inr None)
          else
            (case ngx_radix_alloc \<lparr>root = 0, pool = pool1, free = 0, start = 0, size_r = 0,
                                   nodes = (\<lambda>a. \<lparr>right = 0, left = 0, parent = 0, value = 0\<rparr>)\<rparr> of
               (r, t1) \<Rightarrow>
                 if r = 0 then Some (Inr None)
                 else
                   let t2 = t1\<lparr>root := r,
                               nodes := (nodes t1)(r := \<lparr>right = 0, left = 0, parent = 0,
                                                         value = NGX_RADIX_NO_VALUE\<rparr>)\<rparr>
                   in if preallocate = 0 then Some (Inr (Some t2))
                      else
                        let preallocate' =
                              (if preallocate = - 1 then
                                 (if ngx_pagesize div sizeof_ngx_radix_node_t = 128 then 6
                                  else if ngx_pagesize div sizeof_ngx_radix_node_t = 256 then 7
                                  else 8)
                               else preallocate)
                        in prealloc_levels t2 0 0x80000000 preallocate'))"

declare delete_detach.simps [code]
declare find_loop.simps [code]
declare prealloc_level.simps [code]

declare insert_descend.simps [simp del]
declare insert_extend.simps [simp del]
declare delete_descend.simps [simp del]
declare prealloc_levels.simps [simp del]

section \<open>Vocabulary of the pool properties and concrete pool states\<close>

text \<open>
  The number of large entries that the tombstone search of \<open>ngx_palloc_large\<close> looks at
  when it starts with the counter at \<open>n\<close>.
\<close>

definition inspected :: "ngx_uint_t \<Rightarrow> nat" where
  "inspected n = (if n > 3 then 1 else 5 - unat n)"

definition is_Free :: "event \<Rightarrow> bool" where
  "is_Free e = (case e of Free _ \<Rightarrow> True | Run _ _ \<Rightarrow> False)"

text \<open>
  A caller registering cleanups one after the other, each with its size and its handler:
  \<open>c = ngx_pool_cleanup_add(p, size); c->handler = h;\<close>. The result is \<open>None\<close> as soon
  as one registration returns null.
\<close>

fun register_all :: "ngx_pool_t \<Rightarrow> (size_t \<times> addr) list \<Rightarrow> ngx_pool_t option" where
  "register_all p [] = Some p"
| "register_all p ((sz, h) # hs) =
     (case ngx_pool_cleanup_add p sz of
        (c, p1) \<Rightarrow> if c = 0 then None else register_all (set_handler p1 c h) hs)"

text \<open>A caller allocating \<open>n\<close> blocks of \<open>sz\<close> bytes with \<open>ngx_palloc\<close>.\<close>

fun palloc_times :: "ngx_pool_t \<Rightarrow> nat \<Rightarrow> size_t \<Rightarrow> ngx_pool_t" where
  "palloc_times p 0 sz = p"
| "palloc_times p (Suc n) sz = palloc_times (snd (ngx_palloc p sz)) n sz"

text \<open>
  The answers of the underlying allocator in the examples, and the pool of chunk size 256
  created on them.
\<close>

definition answers_9 :: "addr list" where
  "answers_9 = [4096, 8192, 12288, 16384, 20480, 24576, 28672, 32768, 36864]"

definition pool_256 :: ngx_pool_t where
  "pool_256 =
     \<lparr>chunks = [\<lparr>base = 4096, d_last = 4176, d_end = 4352, d_failed = 0\<rparr>],
      max_p = 176, current = 0, chain = 0, large = [], cleanup = 0, cmem = [], log = 0,
      os = [8192, 12288, 16384, 20480, 24576, 28672, 32768, 36864], trace = []\<rparr>"

text \<open>The pool after two, after six and after seven allocations of 176 bytes.\<close>

definition pool_2_chunks :: ngx_pool_t where
  "pool_2_chunks =
     \<lparr>chunks = [\<lparr>base = 4096, d_last = 4352, d_end = 4352, d_failed = 0\<rparr>,
                \<lparr>base = 8192, d_last = 8400, d_end = 8448, d_failed = 0\<rparr>],
      max_p = 176, current = 0, chain = 0, large = [], cleanup = 0, cmem = [], log = 0,
      os = [12288, 16384, 20480, 24576, 28672, 32768, 36864], trace = []\<rparr>"

definition pool_6_chunks :: ngx_pool_t where
  "pool_6_chunks =
     \<lparr>chunks = [\<lparr>base = 4096, d_last = 4352, d_end = 4352, d_failed = 4\<rparr>,
                \<lparr>base = 8192, d_last = 8400, d_end = 8448, d_failed = 3\<rparr>,
                \<lparr>base = 12288, d_last = 12496, d_end = 12544, d_failed = 2\<rparr>,
                \<lparr>base = 16384, d_last = 16592, d_end = 16640, d_failed = 1\<rparr>,
                \<lparr>base = 20480, d_last = 20688, d_end = 20736, d_failed = 0\<rparr>,
                \<lparr>base = 24576, d_last = 24784, d_end = 24832, d_failed = 0\<rparr>],
      max_p = 176, current = 0, chain = 0, large = [], cleanup = 0, cmem = [], log = 0,
      os = [28672, 32768, 36864], trace = []\<rparr>"

definition pool_7_chunks :: ngx_pool_t where
  "pool_7_chunks =
     \<lparr>chunks = [\<lparr>base = 4096, d_last = 4352, d_end = 4352, d_failed = 5\<rparr>,
                \<lparr>base = 8192, d_last = 8400, d_end = 8448, d_failed = 4\<rparr>,
                \<lparr>base = 12288, d_last = 12496, d_end = 12544, d_failed = 3\<rparr>,
                \<lparr>base = 16384, d_last = 16592, d_end = 16640, d_failed = 2\<rparr>,
                \<lparr>base = 20480, d_last = 20688, d_end = 20736, d_failed = 1\<rparr>,
                \<lparr>base = 24576, d_last = 24784, d_end = 24832, d_failed = 0\<rparr>,
                \<lparr>base = 28672, d_last = 28880, d_end = 28928, d_failed = 0\<rparr>],
      max_p = 176, current = 0, chain = 0, large = [], cleanup = 0, cmem = [], log = 0,
      os = [32768, 36864], trace = []\<rparr>"

text \<open>
  Pools with large allocations: after three allocations of 5000 bytes and a free of the
  second, and after five such allocations and a free of the first.
\<close>

definition answers_large :: "addr list" where
  "answers_large = [4096, 65536, 131072, 196608, 262144, 327680, 393216, 458752]"

definition pool_3_large :: ngx_pool_t where
  "pool_3_large =
     \<lparr>chunks = [\<lparr>base = 4096, d_last = 4224, d_end = 4352, d_failed = 0\<rparr>],
      max_p = 176, current = 0, chain = 0,
      large = [\<lparr>alloc = 196608\<rparr>, \<lparr>alloc = 0\<rparr>, \<lparr>alloc = 65536\<rparr>], cleanup = 0, cmem = [],
      log = 0, os = [262144, 327680, 393216, 458752], trace = [Free 131072]\<rparr>"

definition pool_5_large :: ngx_pool_t where
  "pool_5_large =
     \<lparr>chunks = [\<lparr>base = 4096, d_last = 4256, d_end = 4352, d_failed = 0\<rparr>],
      max_p = 176, current = 0, chain = 0,
      large = [\<lparr>alloc = 327680\<rparr>, \<lparr>alloc = 262144\<rparr>, \<lparr>alloc = 196608\<rparr>,
               \<lparr>alloc = 131072\<rparr>, \<lparr>alloc = 0\<rparr>],
      cleanup = 0, cmem = [], log = 0, os = [393216, 458752], trace = [Free 65536]\<rparr>"

text \<open>
  Three registrations, the third with 8 bytes of data, and the pool they leave: the
  entries are at 4176, 4200 and 4224, the data of the third at 4248.
\<close>

definition three_handlers :: "(size_t \<times> addr) list" where
  "three_handlers = [(0, 101), (0, 102), (8, 103)]"

definition pool_3_cleanups :: ngx_pool_t where
  "pool_3_cleanups =
     \<lparr>chunks = [\<lparr>base = 4096, d_last = 4256, d_end = 4352, d_failed = 0\<rparr>],
      max_p = 176, current = 0, chain = 0, large = [],
      cleanup = 4224,
      cmem = [(4224, \<lparr>handler = 103, data = 4248, next_c = 4200\<rparr>),
              (4200, \<lparr>handler = 102, data = 0, next_c = 4176\<rparr>),
              (4176, \<lparr>handler = 101, data = 0, next_c = 0\<rparr>)],
      log = 0, os = [8192, 12288, 16384, 20480, 24576, 28672, 32768, 36864], trace = []\<rparr>"

text \<open>
  That pool after \<open>ngx_reset_pool\<close> and one more registration, of the handler 104: the
  reset has moved the cursor back to 4176 and left \<open>pool->cleanup\<close> at 4224, so the new
  entry is written at 4176, over the first one, with the old head as its \<open>next\<close>.
\<close>

definition pool_cleanup_cycle :: ngx_pool_t where
  "pool_cleanup_cycle =
     \<lparr>chunks = [\<lparr>base = 4096, d_last = 4200, d_end = 4352, d_failed = 0\<rparr>],
      max_p = 176, current = 0, chain = 0, large = [],
      cleanup = 4176,
      cmem = [(4176, \<lparr>handler = 104, data = 0, next_c = 4224\<rparr>),
              (4224, \<lparr>handler = 103, data = 4248, next_c = 4200\<rparr>),
              (4200, \<lparr>handler = 102, data = 0, next_c = 4176\<rparr>)],
      log = 0, os = [8192, 12288, 16384, 20480, 24576, 28672, 32768, 36864], trace = []\<rparr>"

text \<open>
  The calls of handlers in the first \<open>n\<close> rounds of the first loop of
  \<open>ngx_destroy_pool\<close>.
\<close>

fun cleanup_calls :: "nat \<Rightarrow> (addr \<times> ngx_pool_cleanup_t) list \<Rightarrow> addr \<Rightarrow> event list" where
  "cleanup_calls 0 m c = []"
| "cleanup_calls (Suc n) m c =
     (if c = 0 then []
      else (if handler (centry m c) \<noteq> 0
            then [Run (handler (centry m c)) (data (centry m c))] else [])
           @ cleanup_calls n m (next_c (centry m c)))"

text \<open>
  The entries linked from \<open>p\<close>, when they end with null: \<open>clist m p as\<close> says that
  \<open>as\<close> is the list of their addresses.
\<close>

primrec clist :: "(addr \<times> ngx_pool_cleanup_t) list \<Rightarrow> addr \<Rightarrow> addr list \<Rightarrow> bool" where
  "clist m p [] \<longleftrightarrow> p = 0"
| "clist m p (a # as) \<longleftrightarrow> p = a \<and> a \<noteq> 0 \<and> clist m (next_c (centry m a)) as"

text \<open>The calls that the loop makes on the entries at the addresses \<open>as\<close>, in that order.\<close>

definition calls_of :: "(addr \<times> ngx_pool_cleanup_t) list \<Rightarrow> addr list \<Rightarrow> event list" where
  "calls_of m as =
     map (\<lambda>a. Run (handler (centry m a)) (data (centry m a)))
       (filter (\<lambda>a. handler (centry m a) \<noteq> 0) as)"

text \<open>
  Registrations that never get an address at which a linked entry lies: \<open>as\<close> are the
  addresses of the linked entries before the first registration.
\<close>

fun fresh_registrations :: "ngx_pool_t \<Rightarrow> (size_t \<times> addr) list \<Rightarrow> addr list \<Rightarrow> bool" where
  "fresh_registrations p [] as \<longleftrightarrow> True"
| "fresh_registrations p ((sz, h) # hs) as \<longleftrightarrow>
     (case ngx_pool_cleanup_add p sz of
        (c, p1) \<Rightarrow> c \<notin> set as \<and> fresh_registrations (set_handler p1 c h) hs (c # as))"

text \<open>
  A pointer lies inside a chunk when it is at or after the address of the chunk and before
  its end. A chunk is in order when its cursor lies between its address and its end and the
  end is a multiple of 8; a pool can grow in order when the size of its chunks is at least
  40 and a block of that size at any address that the underlying allocator will return
  does not wrap around the address space. In a separated pool no large block starts
  inside a chunk.
\<close>

definition in_chunk :: "ngx_pool_data_t \<Rightarrow> addr \<Rightarrow> bool" where
  "in_chunk c p \<longleftrightarrow> unat (base c) \<le> unat p \<and> unat p < unat (d_end c)"









section \<open>Vocabulary of the radix tree properties\<close>

text \<open>
  Bits are counted from the most significant one: position 0 is bit 31. \<open>bitpos i\<close> is the
  value of the variable \<open>bit\<close> after \<open>i\<close> shifts, and \<open>kbit w i\<close> tells whether \<open>w\<close> has
  the bit of position \<open>i\<close>; there is none from position 32 on.
\<close>

definition bitpos :: "nat \<Rightarrow> uint32_t" where
  "bitpos i = drop_bit i 0x80000000"

definition kbit :: "uint32_t \<Rightarrow> nat \<Rightarrow> bool" where
  "kbit w i = (i < 32 \<and> bit w (31 - i))"

text \<open>The first \<open>n\<close> bits of a key, as the path they select: \<open>True\<close> is right.\<close>

definition key_bits :: "uint32_t \<Rightarrow> nat \<Rightarrow> bool list" where
  "key_bits key n = map (kbit key) [0 ..< n]"

text \<open>
  The number of consecutive one bits of a mask from position \<open>i\<close> on, and the length of
  the mask: the number of its leading one bits.
\<close>

function mask_from :: "uint32_t \<Rightarrow> nat \<Rightarrow> nat" where
  "mask_from msk i = (if kbit msk i then Suc (mask_from msk (Suc i)) else 0)"
  by pat_completeness auto
termination
  by (relation "measure (\<lambda>(msk, i). 32 - i)") (auto simp: kbit_def)

declare mask_from.simps [simp del]

definition mask_len :: "uint32_t \<Rightarrow> nat" where
  "mask_len msk = mask_from msk 0"

text \<open>The mask of the \<open>n\<close> highest bits, for \<open>n\<close> up to 32.\<close>

definition prefix_mask :: "nat \<Rightarrow> uint32_t" where
  "prefix_mask n = NOT (mask (32 - n))"

text \<open>The longest contiguous run of high bits of a mask.\<close>

definition contiguous_part :: "uint32_t \<Rightarrow> uint32_t" where
  "contiguous_part msk = prefix_mask (mask_len msk)"

text \<open>
  The child of a node in one direction, null for the null node, and the node reached from
  a node along a path, null when the path leaves the tree.
\<close>

definition child :: "(addr \<Rightarrow> ngx_radix_node_t) \<Rightarrow> addr \<Rightarrow> bool \<Rightarrow> addr" where
  "child m p c = (if p = 0 then 0 else if c then right (m p) else left (m p))"

primrec walk :: "(addr \<Rightarrow> ngx_radix_node_t) \<Rightarrow> addr \<Rightarrow> bool list \<Rightarrow> addr" where
  "walk m p [] = p"
| "walk m p (c # cs) = walk m (child m p c) cs"

text \<open>The path selected by the \<open>n\<close> bits of a key from position \<open>i\<close> on.\<close>

definition path_from :: "uint32_t \<Rightarrow> nat \<Rightarrow> nat \<Rightarrow> bool list" where
  "path_from key i n = map (kbit key) [i ..< i + n]"

section \<open>Concrete trees\<close>

text \<open>
  A pool of chunk size 1024, the empty tree created in it with \<open>preallocate = 0\<close>, and
  that tree after the insertion of the prefix \<open>0x80000000/2\<close> with the value 42.
\<close>

definition pool_1024 :: ngx_pool_t where
  "pool_1024 =
     \<lparr>chunks = [\<lparr>base = 4096, d_last = 4176, d_end = 5120, d_failed = 0\<rparr>],
      max_p = 944, current = 0, chain = 0, large = [], cleanup = 0, cmem = [], log = 0,
      os = [8192, 12288, 16384, 20480], trace = []\<rparr>"

definition tree_empty :: ngx_radix_tree_t where
  "tree_empty =
     \<lparr>root = 8192,
      pool = pool_1024\<lparr>chunks := [\<lparr>base = 4096, d_last = 4232, d_end = 5120, d_failed = 0\<rparr>],
                       large := [\<lparr>alloc = 8192\<rparr>], os := [12288, 16384, 20480]\<rparr>,
      free = 0, start = 8224, size_r = 4064,
      nodes = (\<lambda>a. \<lparr>right = 0, left = 0, parent = 0, value = 0\<rparr>)
                (8192 := \<lparr>right = 0, left = 0, parent = 0, value = NGX_RADIX_NO_VALUE\<rparr>)\<rparr>"

definition tree_one :: ngx_radix_tree_t where
  "tree_one =
     tree_empty\<lparr>start := 8288, size_r := 4000,
       nodes := (\<lambda>a. \<lparr>right = 0, left = 0, parent = 0, value = 0\<rparr>)
                (8192 := \<lparr>right = 8224, left = 0, parent = 0, value = NGX_RADIX_NO_VALUE\<rparr>,
                 8224 := \<lparr>right = 0, left = 8256, parent = 8192, value = NGX_RADIX_NO_VALUE\<rparr>,
                 8256 := \<lparr>right = 0, left = 0, parent = 8224, value = 42\<rparr>)\<rparr>"


section \<open>Vocabulary of the memory and shape properties of the tree\<close>

text \<open>
  A pool \<open>pl'\<close> is a later state of \<open>pl\<close> as far as the operating system is concerned when
  the answers still to come in \<open>pl'\<close> are the last of those to come in \<open>pl\<close>.
\<close>

definition os_suffix :: "ngx_pool_t \<Rightarrow> ngx_pool_t \<Rightarrow> bool" where
  "os_suffix pl pl' \<longleftrightarrow> (\<exists>ds. os pl = ds @ os pl')"

text \<open>
  The node slots of a block of \<open>sz\<close> bytes at \<open>a\<close>, in the order in which
  \<open>ngx_radix_alloc\<close> carves them, and the slots of the pages that the operating system
  will still hand out. A free list is the list of the nodes linked through \<open>right\<close> from
  \<open>tree->free\<close>. The nodes that \<open>ngx_radix_alloc\<close> can still return are those of the free
  list, the rest of the current page, and the pages to come.
\<close>

definition slots :: "addr \<Rightarrow> size_t \<Rightarrow> addr list" where
  "slots a sz =
     map (\<lambda>k. a + sizeof_ngx_radix_node_t * of_nat k)
       [0 ..< unat (sz div sizeof_ngx_radix_node_t)]"

definition future_slots :: "addr list \<Rightarrow> addr list" where
  "future_slots answers = concat (map (\<lambda>a. slots a ngx_pagesize) (filter (\<lambda>a. a \<noteq> 0) answers))"

primrec flist :: "(addr \<Rightarrow> ngx_radix_node_t) \<Rightarrow> addr \<Rightarrow> addr list \<Rightarrow> bool" where
  "flist m p [] \<longleftrightarrow> p = 0"
| "flist m p (a # as) \<longleftrightarrow> p = a \<and> a \<noteq> 0 \<and> flist m (right (m a)) as"

definition avail :: "ngx_radix_tree_t \<Rightarrow> addr list \<Rightarrow> addr list" where
  "avail t fl = fl @ slots (start t) (size_r t) @ future_slots (os (pool t))"

text \<open>
  The blocks that the operating system will hand out are fresh when their node slots do
  not overlap and none of them is at the null address.
\<close>

definition os_fresh :: "ngx_pool_t \<Rightarrow> bool" where
  "os_fresh pl \<longleftrightarrow> distinct (future_slots (os pl)) \<and> 0 \<notin> set (future_slots (os pl))"

text \<open>
  The shape of a tree with the free list \<open>fl\<close>: the root exists and has no parent, two
  different paths never lead to the same node, no node is deeper than 32, the parent
  pointer of a node is the node above it, and no node of the tree is among those that
  \<open>ngx_radix_alloc\<close> can still return.
\<close>

definition tree_inv_fl :: "ngx_radix_tree_t \<Rightarrow> addr list \<Rightarrow> bool" where
  "tree_inv_fl t fl \<longleftrightarrow>
     root t \<noteq> 0 \<and> parent (nodes t (root t)) = 0 \<and>
     (\<forall>xs ys. walk (nodes t) (root t) xs \<noteq> 0 \<and>
              walk (nodes t) (root t) xs = walk (nodes t) (root t) ys \<longrightarrow> xs = ys) \<and>
     (\<forall>xs. walk (nodes t) (root t) xs \<noteq> 0 \<longrightarrow> length xs \<le> 32) \<and>
     (\<forall>xs c. walk (nodes t) (root t) (xs @ [c]) \<noteq> 0 \<longrightarrow>
              parent (nodes t (walk (nodes t) (root t) (xs @ [c]))) = walk (nodes t) (root t) xs) \<and>
     flist (nodes t) (free t) fl \<and> distinct (avail t fl) \<and> 0 \<notin> set (avail t fl) \<and>
     (\<forall>xs. walk (nodes t) (root t) xs \<notin> set (avail t fl))"

text \<open>The value stored at the end of a path, \<open>None\<close> when the path leaves the tree.\<close>

definition lookup :: "ngx_radix_tree_t \<Rightarrow> bool list \<Rightarrow> uintptr_t option" where
  "lookup t xs =
     (if walk (nodes t) (root t) xs = 0 then None
      else Some (value (nodes t (walk (nodes t) (root t) xs))))"

text \<open>
  One step of the second loop of the insert on the node memory: the fresh node \<open>p\<close> is
  initialised and hung below \<open>node\<close> in the direction \<open>c\<close>.
\<close>

definition graft ::
  "(addr \<Rightarrow> ngx_radix_node_t) \<Rightarrow> addr \<Rightarrow> bool \<Rightarrow> addr \<Rightarrow> (addr \<Rightarrow> ngx_radix_node_t)" where
  "graft m node c p =
     (let m1 = m(p := \<lparr>right = 0, left = 0, parent = node, value = NGX_RADIX_NO_VALUE\<rparr>)
      in if c then m1(node := (m1 node)\<lparr>right := p\<rparr>) else m1(node := (m1 node)\<lparr>left := p\<rparr>))"

text \<open>
  A path read as a binary number, and the key that the preallocation inserts as the
  \<open>i\<close>-th one of the level of the prefixes of length \<open>l + 1\<close>: the loop starts at 0 and
  adds \<open>0x80000000 >> l\<close> each time.
\<close>

definition bits_val :: "bool list \<Rightarrow> nat" where
  "bits_val xs = foldl (\<lambda>a b. 2 * a + of_bool b) 0 xs"

definition level_key :: "nat \<Rightarrow> nat \<Rightarrow> uint32_t" where
  "level_key l i = push_bit (31 - l) (of_nat i)"

text \<open>
  The tree holds exactly the paths of length up to \<open>l\<close> and the first \<open>i\<close> paths of length
  \<open>l + 1\<close>, all with \<open>NGX_RADIX_NO_VALUE\<close>.
\<close>

definition full_to :: "ngx_radix_tree_t \<Rightarrow> nat \<Rightarrow> nat \<Rightarrow> bool" where
  "full_to t l i \<longleftrightarrow>
     (\<forall>xs. lookup t xs =
        (if length xs \<le> l \<or> (length xs = Suc l \<and> bits_val xs < i)
         then Some NGX_RADIX_NO_VALUE else None))"

text \<open>The nodes of a tree: what a path from the root leads to.\<close>

definition tree_nodes :: "ngx_radix_tree_t \<Rightarrow> addr set" where
  "tree_nodes t = {p. p \<noteq> 0 \<and> (\<exists>xs. walk (nodes t) (root t) xs = p)}"

text \<open>The tree that \<open>ngx_radix_tree_create\<close> returns, if it returns one.\<close>

definition created_tree :: "ngx_pool_t \<Rightarrow> 64 word \<Rightarrow> ngx_radix_tree_t option" where
  "created_tree pl preallocate =
     (case ngx_radix_tree_create pl preallocate of
        Some (Inr (Some t)) \<Rightarrow> Some t
      | _ \<Rightarrow> None)"

text \<open>
  A pool of 4 GiB created at 4096 on a machine whose operating system then hands out
  \<open>2\<^sup>2\<^sup>7\<close> consecutive pages from \<open>0x200000000\<close> on: room for \<open>2\<^sup>3\<^sup>4\<close> nodes.
\<close>

definition huge_pages :: "addr list" where
  "huge_pages = map (\<lambda>i. 0x200000000 + ngx_pagesize * of_nat i) [0 ..< 134217728]"

definition huge_pool :: ngx_pool_t where
  "huge_pool =
     \<lparr>chunks = [\<lparr>base = 4096, d_last = 4176, d_end = 0x100001000, d_failed = 0\<rparr>],
      max_p = 4095, current = 0, chain = 0, large = [], cleanup = 0, cmem = [], log = 0,
      os = huge_pages, trace = []\<rparr>"

section \<open>Sequences of operations on a tree\<close>

text \<open>
  A sequence of calls of \<open>ngx_radix32tree_insert\<close> and \<open>ngx_radix32tree_delete\<close> on one
  tree, whatever they return, ended by the first fault, and the result of
  \<open>ngx_radix32tree_find\<close> after such a sequence.
\<close>

datatype op = Insert32 uint32_t uint32_t uintptr_t | Delete32 uint32_t uint32_t

fun run_ops :: "op list \<Rightarrow> ngx_radix_tree_t \<Rightarrow> (fault + ngx_radix_tree_t) option" where
  "run_ops [] t = Some (Inr t)"
| "run_ops (Insert32 key msk v # ops) t =
     (case ngx_radix32tree_insert t key msk v of
        Inl f \<Rightarrow> Some (Inl f)
      | Inr (rc, t1) \<Rightarrow> run_ops ops t1)"
| "run_ops (Delete32 key msk # ops) t =
     (case ngx_radix32tree_delete t key msk of
        None \<Rightarrow> None
      | Some (Inl f) \<Rightarrow> Some (Inl f)
      | Some (Inr (rc, t1)) \<Rightarrow> run_ops ops t1)"

definition find_after ::
  "op list \<Rightarrow> ngx_radix_tree_t \<Rightarrow> uint32_t \<Rightarrow> (fault + uintptr_t) option" where
  "find_after ops t key =
     (case run_ops ops t of
        None \<Rightarrow> None
      | Some (Inl f) \<Rightarrow> Some (Inl f)
      | Some (Inr t1) \<Rightarrow> map_option Inr (ngx_radix32tree_find t1 key))"

text \<open>
  The prefixes that carry a value, as a table from paths to values, and the table that a
  sequence of operations leaves: an insert adds its prefix unless the prefix is there
  already, a delete removes its prefix. The longest match of a key in a table is the
  value of the longest of the 33 leading parts of the key that is in the table, and
  \<open>NGX_RADIX_NO_VALUE\<close> when none is; \<open>lpm_scan\<close> computes it as the lookup does, from the
  shortest part on, keeping the last value seen.
\<close>

definition valued :: "ngx_radix_tree_t \<Rightarrow> bool list \<Rightarrow> uintptr_t option" where
  "valued t xs =
     (case lookup t xs of
        None \<Rightarrow> None
      | Some v \<Rightarrow> if v = NGX_RADIX_NO_VALUE then None else Some v)"

fun table :: "op list \<Rightarrow> (bool list \<Rightarrow> uintptr_t option) \<Rightarrow> (bool list \<Rightarrow> uintptr_t option)" where
  "table [] S = S"
| "table (Insert32 key msk v # ops) S =
     table ops (if S (key_bits key (mask_len msk)) = None
                then S(key_bits key (mask_len msk) \<mapsto> v) else S)"
| "table (Delete32 key msk # ops) S = table ops (S(key_bits key (mask_len msk) := None))"

definition lpm_scan :: "(bool list \<Rightarrow> uintptr_t option) \<Rightarrow> uint32_t \<Rightarrow> uintptr_t \<Rightarrow> nat list \<Rightarrow> uintptr_t" where
  "lpm_scan S key v ns = foldl (\<lambda>a n. case S (key_bits key n) of None \<Rightarrow> a | Some w \<Rightarrow> w) v ns"

definition lpm :: "(bool list \<Rightarrow> uintptr_t option) \<Rightarrow> uint32_t \<Rightarrow> uintptr_t" where
  "lpm S key =
     (case filter (\<lambda>n. S (key_bits key n) \<noteq> None) (rev [0 ..< 33]) of
        [] \<Rightarrow> NGX_RADIX_NO_VALUE
      | n # ns \<Rightarrow> the (S (key_bits key n)))"

text \<open>
  An operation is in order when the value it inserts is not \<open>NGX_RADIX_NO_VALUE\<close>; the
  deletes with an empty mask are those of the prefix of length 0.
\<close>

fun op_ok :: "op \<Rightarrow> bool" where
  "op_ok (Insert32 key msk v) \<longleftrightarrow> v \<noteq> NGX_RADIX_NO_VALUE"
| "op_ok (Delete32 key msk) \<longleftrightarrow> True"

fun deletes_all :: "op \<Rightarrow> bool" where
  "deletes_all (Insert32 key msk v) \<longleftrightarrow> False"
| "deletes_all (Delete32 key msk) \<longleftrightarrow> mask_len msk = 0"

text \<open>
  One round of the detaching loop of the delete on the node memory: the childless \<open>node\<close>
  is unhooked from \<open>par\<close>, of which it is the child in the direction \<open>c\<close>, and pushed on
  the free list \<open>fr\<close>.
\<close>

definition prune ::
  "(addr \<Rightarrow> ngx_radix_node_t) \<Rightarrow> addr \<Rightarrow> bool \<Rightarrow> addr \<Rightarrow> addr \<Rightarrow> (addr \<Rightarrow> ngx_radix_node_t)" where
  "prune m par c node fr =
     (let m1 = (if c then m(par := (m par)\<lparr>right := 0\<rparr>) else m(par := (m par)\<lparr>left := 0\<rparr>))
      in m1(node := (m1 node)\<lparr>right := fr\<rparr>))"

section \<open>The memory that the pool can still supply\<close>

subsection \<open>Allocations consume the answers of the operating system in order\<close>

lemma os_suffix_refl [simp]: "os_suffix pl pl"
  by (simp add: os_suffix_def)

lemma os_suffix_same: "os pl' = os pl \<Longrightarrow> os_suffix pl pl'"
  by (simp add: os_suffix_def)

lemma os_suffix_trans: "os_suffix a b \<Longrightarrow> os_suffix b c \<Longrightarrow> os_suffix a c"
  by (auto simp: os_suffix_def)

lemma os_suffix_tl: "os pl = a # as \<Longrightarrow> os pl' = as \<Longrightarrow> os_suffix pl pl'"
  by (auto simp: os_suffix_def)

lemma ngx_memalign_os: "os_suffix pl (snd (ngx_memalign al sz pl))"
  by (auto simp: ngx_memalign_def os_suffix_def split: list.splits)

lemma ngx_alloc_os: "os_suffix pl (snd (ngx_alloc sz pl))"
  by (auto simp: ngx_alloc_def os_suffix_def split: list.splits)

lemma ngx_palloc_block_os: "os_suffix pl (snd (ngx_palloc_block pl sz))"
  by (auto simp: ngx_palloc_block_def ngx_memalign_def os_suffix_def Let_def
           split: list.splits prod.splits)

lemma ngx_palloc_os:
  "os_suffix pl (snd (ngx_palloc pl sz))"
  "os_suffix pl (snd (ngx_palloc_large pl sz'))"
proof (induction pl sz and pl sz' rule: ngx_palloc_ngx_palloc_large.induct)
  case (1 pl sz)
  show ?case
  proof (cases "sz \<le> max_p pl")
    case True
    then show ?thesis
      by (subst ngx_palloc.simps)
         (auto simp: ngx_palloc_block_os intro: os_suffix_same split: option.splits)
  next
    case False
    with "1.IH" show ?thesis by (subst ngx_palloc.simps) simp
  qed
next
  case (2 pl sz)
  obtain p pool1 where a: "ngx_alloc sz pl = (p, pool1)" by (cases "ngx_alloc sz pl")
  have s1: "os_suffix pl pool1" using ngx_alloc_os [of pl sz] a by simp
  show ?case
  proof (cases "p = 0")
    case True
    with a s1 show ?thesis by (subst ngx_palloc_large.simps) simp
  next
    case False
    show ?thesis
    proof (cases "large_reuse (large pool1) 0 p")
      case (Some ls)
      have "os_suffix pl (pool1\<lparr>large := ls\<rparr>)"
        using s1 by (simp add: os_suffix_def)
      with a False Some show ?thesis by (subst ngx_palloc_large.simps) simp
    next
      case None
      obtain l pool2 where q: "ngx_palloc pool1 sizeof_ngx_pool_large_t = (l, pool2)"
        by (cases "ngx_palloc pool1 sizeof_ngx_pool_large_t")
      from "2.IH" [OF a [symmetric] False None] q have "os_suffix pool1 pool2" by simp
      with s1 have "os_suffix pl pool2" by (rule os_suffix_trans)
      then have "os_suffix pl (ngx_free p pool2)"
        "os_suffix pl (pool2\<lparr>large := \<lparr>alloc = p\<rparr> # large pool2\<rparr>)"
        by (simp_all add: os_suffix_def ngx_free_def)
      with a False None q show ?thesis by (subst ngx_palloc_large.simps) simp
    qed
  qed
qed

lemma ngx_pmemalign_os:
  assumes "ngx_pmemalign pl sz al = (s, pl')"
  shows "os_suffix pl pl'"
    and "s \<noteq> 0 \<Longrightarrow> \<exists>ds. os pl = s # ds @ os pl'"
proof -
  obtain p pool1 where a: "ngx_memalign al sz pl = (p, pool1)"
    by (cases "ngx_memalign al sz pl")
  obtain l pool2 where q: "ngx_palloc pool1 sizeof_ngx_pool_large_t = (l, pool2)"
    by (cases "ngx_palloc pool1 sizeof_ngx_pool_large_t")
  have s1: "os_suffix pl pool1" using ngx_memalign_os [of pl al sz] a by simp
  have s2: "os_suffix pool1 pool2" using ngx_palloc_os(1) [of pool1 sizeof_ngx_pool_large_t] q by simp
  have r: "(s, pl') = (if p = 0 then (0, pool1)
                       else if l = 0 then (0, ngx_free p pool2)
                       else (p, pool2\<lparr>large := \<lparr>alloc = p\<rparr> # large pool2\<rparr>))"
    using assms a q by (auto simp: ngx_pmemalign_def split: if_splits)
  have s3: "os_suffix pool2 pl' \<or> (p = 0 \<and> pl' = pool1)"
    using r by (auto simp: os_suffix_def ngx_free_def split: if_splits)
  show "os_suffix pl pl'"
    using s1 s2 s3 by (auto intro: os_suffix_trans)
  show "\<exists>ds. os pl = s # ds @ os pl'" if "s \<noteq> 0"
  proof -
    from that r have p: "p = s" "p \<noteq> 0" "os pl' = os pool2"
      by (auto split: if_splits)
    with a have "os pl = s # os pool1"
      by (auto simp: ngx_memalign_def split: list.splits)
    moreover from s2 obtain ds where "os pool1 = ds @ os pool2" by (auto simp: os_suffix_def)
    ultimately show ?thesis using p(3) by simp
  qed
qed

subsection \<open>Pages and nodes left\<close>

text \<open>
  The number of pages that \<open>ngx_pmemalign\<close> can still return in a row, the number of
  nodes that \<open>ngx_radix_alloc\<close> can still take from the current page and from those
  pages, and the memory that a creation needs: the handle can be allocated, and the pool
  then has pages for \<open>n\<close> nodes.
\<close>

function pages_left :: "ngx_pool_t \<Rightarrow> nat" where
  "pages_left pl =
     (case ngx_pmemalign pl ngx_pagesize ngx_pagesize of
        (s, pl') \<Rightarrow> if s = 0 then 0 else Suc (pages_left pl'))"
  by pat_completeness auto

termination
proof (relation "measure (\<lambda>pl. length (os pl))", goal_cases)
  case 1
  show ?case by simp
next
  case (2 pl s pl')
  then have "ngx_pmemalign pl ngx_pagesize ngx_pagesize = (s, pl')" and "s \<noteq> 0"
    by simp_all
  from ngx_pmemalign_os(2) [OF this] show ?case by auto
qed

declare pages_left.simps [simp del]

definition nodes_left :: "ngx_radix_tree_t \<Rightarrow> nat" where
  "nodes_left t =
     unat (size_r t div sizeof_ngx_radix_node_t)
       + unat (ngx_pagesize div sizeof_ngx_radix_node_t) * pages_left (pool t)"

definition enough_memory :: "ngx_pool_t \<Rightarrow> nat \<Rightarrow> bool" where
  "enough_memory pl n \<longleftrightarrow>
     (case ngx_palloc pl sizeof_ngx_radix_tree_t of
        (tp, pool1) \<Rightarrow>
          tp \<noteq> 0 \<and> n \<le> unat (ngx_pagesize div sizeof_ngx_radix_node_t) * pages_left pool1)"

section \<open>Properties of the pool\<close>

subsection \<open>The concrete states are reachable\<close>

lemma pool_256_created: "ngx_create_pool 256 0 answers_9 = Some pool_256"
  by (simp add: ngx_create_pool_def answers_9_def pool_256_def sizeof_ngx_pool_t_def
      NGX_MAX_ALLOC_FROM_POOL_def ngx_pagesize_def)

lemma pool_2_chunks_reached: "palloc_times pool_256 2 176 = pool_2_chunks"
  by code_simp

lemma pool_6_chunks_reached: "palloc_times pool_2_chunks 4 176 = pool_6_chunks"
  by code_simp

lemma pool_7_chunks_reached: "snd (ngx_palloc pool_6_chunks 176) = pool_7_chunks"
  by code_simp

lemma pool_3_large_reached:
  "map_option (\<lambda>p. snd (ngx_pfree (palloc_times p 3 5000) 131072))
     (ngx_create_pool 256 0 answers_large) = Some pool_3_large"
  by code_simp

lemma pool_5_large_reached:
  "map_option (\<lambda>p. snd (ngx_pfree (palloc_times p 5 5000) 65536))
     (ngx_create_pool 256 0 answers_large) = Some pool_5_large"
  by code_simp


subsection \<open>Freeing\<close>






lemma in_chunk_fields:
  "base c' = base c \<Longrightarrow> d_end c' = d_end c \<Longrightarrow> in_chunk c' p = in_chunk c p"
  by (simp add: in_chunk_def)








subsection \<open>Growing the chain\<close>

lemma block_walk_length: "length (fst (block_walk cs p cur)) = length cs"
proof (induction cs p cur rule: block_walk.induct)
  case (1 cs p cur)
  show ?case
  proof (cases "p + 1 < length cs")
    case True
    with 1 show ?thesis by (subst block_walk.simps) simp
  next
    case False
    then show ?thesis by (subst block_walk.simps) simp
  qed
qed

lemma block_walk_nth:
  "i < length cs \<Longrightarrow>
   fst (block_walk cs p cur) ! i =
     (if p \<le> i \<and> i + 1 < length cs then (cs ! i)\<lparr>d_failed := d_failed (cs ! i) + 1\<rparr>
      else cs ! i)"
proof (induction cs p cur rule: block_walk.induct)
  case (1 cs p cur)
  show ?case
  proof (cases "p + 1 < length cs")
    case True
    let ?cs1 = "cs[p := (cs ! p)\<lparr>d_failed := d_failed (cs ! p) + 1\<rparr>]"
    have step: "block_walk cs p cur =
        block_walk ?cs1 (p + 1) (if d_failed (cs ! p) > 4 then p + 1 else cur)"
      using True by (subst block_walk.simps) simp
    have "fst (block_walk cs p cur) ! i =
        (if p + 1 \<le> i \<and> i + 1 < length ?cs1 then (?cs1 ! i)\<lparr>d_failed := d_failed (?cs1 ! i) + 1\<rparr>
         else ?cs1 ! i)"
      unfolding step using "1.IH" [OF True] "1.prems" by simp
    then show ?thesis using True "1.prems" by (auto simp: nth_list_update)
  next
    case False
    then show ?thesis by (subst block_walk.simps) simp
  qed
qed

lemma block_walk_cur:
  "snd (block_walk cs p cur) =
     (case filter (\<lambda>i. 4 < d_failed (cs ! i)) [p ..< length cs - 1] of
        [] \<Rightarrow> cur | js \<Rightarrow> Suc (last js))"
proof (induction cs p cur rule: block_walk.induct)
  case (1 cs p cur)
  show ?case
  proof (cases "p + 1 < length cs")
    case True
    let ?cs1 = "cs[p := (cs ! p)\<lparr>d_failed := d_failed (cs ! p) + 1\<rparr>]"
    let ?cur1 = "if d_failed (cs ! p) > 4 then p + 1 else cur"
    have step: "block_walk cs p cur = block_walk ?cs1 (p + 1) ?cur1"
      using True by (subst block_walk.simps) simp
    have same: "filter (\<lambda>i. 4 < d_failed (?cs1 ! i)) [p + 1 ..< length ?cs1 - 1] =
                filter (\<lambda>i. 4 < d_failed (cs ! i)) [p + 1 ..< length cs - 1]"
      by (rule filter_cong) auto
    have split: "[p ..< length cs - 1] = p # [p + 1 ..< length cs - 1]"
      using True by (simp add: upt_conv_Cons)
    have "snd (block_walk cs p cur) =
        (case filter (\<lambda>i. 4 < d_failed (cs ! i)) [p + 1 ..< length cs - 1] of
           [] \<Rightarrow> ?cur1 | js \<Rightarrow> Suc (last js))"
      unfolding step using "1.IH" [OF True] same by simp
    then show ?thesis unfolding split by (simp split: list.splits)
  next
    case False
    then show ?thesis by (subst block_walk.simps) simp
  qed
qed

lemma block_walk_chunks:
  "fst (block_walk cs p cur) =
     map (\<lambda>i. if p \<le> i \<and> i + 1 < length cs then (cs ! i)\<lparr>d_failed := d_failed (cs ! i) + 1\<rparr>
              else cs ! i) [0 ..< length cs]"
  by (rule nth_equalityI) (simp_all add: block_walk_length block_walk_nth)

lemma ngx_palloc_block_frame:
  "cleanup (snd (ngx_palloc_block pl sz)) = cleanup pl"
  "cmem (snd (ngx_palloc_block pl sz)) = cmem pl"
  "large (snd (ngx_palloc_block pl sz)) = large pl"
  "trace (snd (ngx_palloc_block pl sz)) = trace pl"
  "max_p (snd (ngx_palloc_block pl sz)) = max_p pl"
  by (auto simp: ngx_palloc_block_def ngx_memalign_def Let_def split: list.splits prod.splits)

lemma ngx_palloc_cleanup:
  "cleanup (snd (ngx_palloc pl sz)) = cleanup pl \<and> cmem (snd (ngx_palloc pl sz)) = cmem pl"
  "cleanup (snd (ngx_palloc_large pl sz')) = cleanup pl \<and>
   cmem (snd (ngx_palloc_large pl sz')) = cmem pl"
proof (induction pl sz and pl sz' rule: ngx_palloc_ngx_palloc_large.induct)
  case (1 pl sz)
  then show ?case
    unfolding ngx_palloc.simps [of pl sz]
    by (auto simp: ngx_palloc_block_frame split: option.splits prod.splits)
next
  case (2 pl sz)
  show ?case
  proof (cases "ngx_alloc sz pl")
    case (Pair p pool1)
    then have c1: "cleanup pool1 = cleanup pl \<and> cmem pool1 = cmem pl"
      by (auto simp: ngx_alloc_def split: list.splits)
    show ?thesis
    proof (cases "p = 0")
      case True
      with Pair c1 show ?thesis unfolding ngx_palloc_large.simps [of pl sz] by simp
    next
      case False
      show ?thesis
      proof (cases "large_reuse (large pool1) 0 p")
        case None
        from "2.IH" [OF Pair [symmetric] False None]
        have "cleanup (snd (ngx_palloc pool1 sizeof_ngx_pool_large_t)) = cleanup pool1 \<and>
              cmem (snd (ngx_palloc pool1 sizeof_ngx_pool_large_t)) = cmem pool1" .
        with Pair False None c1 show ?thesis
          unfolding ngx_palloc_large.simps [of pl sz]
          by (auto simp: ngx_free_def split: prod.splits)
      next
        case (Some ls)
        with Pair False c1 show ?thesis unfolding ngx_palloc_large.simps [of pl sz] by simp
      qed
    qed
  qed
qed

lemma ngx_palloc_small_large:
  "sz \<le> max_p pl \<Longrightarrow> large (snd (ngx_palloc pl sz)) = large pl"
  by (subst ngx_palloc.simps)
     (auto simp: ngx_palloc_block_frame split: option.splits prod.splits)

text \<open>
  C2, as amended. When a small allocation (\<open>sz \<le> max\<close>) fits in no chunk from \<open>current\<close>
  on and the underlying allocator supplies a new chunk, the walk visits the chunks from
  \<open>current\<close> up to, but not including, the last existing chunk. Each visited chunk has
  its \<open>failed\<close> counter incremented by one; the last existing chunk and the chunks
  before \<open>current\<close> keep theirs. \<open>current\<close> moves to the chunk after the last visited
  chunk whose counter exceeded 4 before the increment, and stays where it was when there is
  none: a chunk is passed on the walk that finds its counter at 5 or more, which is the
  sixth or a later walk over a chunk whose counter started at 0. The new chunk is appended
  with a counter of 0.
\<close>

theorem ngx_palloc_grow_walk:
  assumes small: "sz \<le> max_p pl"
    and nofit: "palloc_scan (chunks pl) (current pl) sz = None"
    and os: "os pl = m # rest" and m: "m \<noteq> 0"
  shows "snd (ngx_palloc pl sz) =
       pl\<lparr>os := rest,
            chunks :=
              map (\<lambda>i. if current pl \<le> i \<and> i + 1 < length (chunks pl)
                        then (chunks pl ! i)\<lparr>d_failed := d_failed (chunks pl ! i) + 1\<rparr>
                        else chunks pl ! i) [0 ..< length (chunks pl)]
              @ [\<lparr>base = m,
                  d_last = ngx_align_ptr (m + sizeof_ngx_pool_data_t) NGX_ALIGNMENT + sz,
                  d_end = m + (d_end (hd (chunks pl)) - base (hd (chunks pl))),
                  d_failed = 0\<rparr>],
            current :=
              (case filter (\<lambda>i. 4 < d_failed (chunks pl ! i))
                      [current pl ..< length (chunks pl) - 1] of
                 [] \<Rightarrow> current pl
               | js \<Rightarrow> Suc (last js))\<rparr>"
proof -
  let ?cs0 = "chunks pl" and ?c0 = "current pl"
  have e: "ngx_palloc pl sz = ngx_palloc_block pl sz"
    using small nofit by (subst ngx_palloc.simps) simp
  obtain cs cur where bw: "block_walk ?cs0 ?c0 ?c0 = (cs, cur)"
    by (cases "block_walk ?cs0 ?c0 ?c0")
  have cs: "cs = map (\<lambda>i. if ?c0 \<le> i \<and> i + 1 < length ?cs0
                        then (?cs0 ! i)\<lparr>d_failed := d_failed (?cs0 ! i) + 1\<rparr>
                        else ?cs0 ! i) [0 ..< length ?cs0]"
    using block_walk_chunks [of ?cs0 ?c0 ?c0] by (simp only: bw fst_conv)
  have cur: "cur = (case filter (\<lambda>i. 4 < d_failed (?cs0 ! i)) [?c0 ..< length ?cs0 - 1] of
                 [] \<Rightarrow> ?c0 | js \<Rightarrow> Suc (last js))"
    using block_walk_cur [of ?cs0 ?c0 ?c0] by (simp only: bw snd_conv)
  have "snd (ngx_palloc_block pl sz) =
      pl\<lparr>os := rest,
           chunks := cs @ [\<lparr>base = m,
              d_last = ngx_align_ptr (m + sizeof_ngx_pool_data_t) NGX_ALIGNMENT + sz,
              d_end = m + (d_end (hd ?cs0) - base (hd ?cs0)), d_failed = 0\<rparr>],
           current := cur\<rparr>"
    using os m bw by (simp add: ngx_palloc_block_def ngx_memalign_def Let_def)
  then show ?thesis
    unfolding e cs [symmetric] cur [symmetric] by simp
qed

theorem ngx_palloc_grow_walk_witness:
  "176 \<le> max_p pool_7_chunks \<and>
   palloc_scan (chunks pool_7_chunks) (current pool_7_chunks) 176 = None \<and>
   os pool_7_chunks = 32768 # [36864] \<and> (32768 :: addr) \<noteq> 0 \<and>
   map d_failed (chunks (snd (ngx_palloc pool_7_chunks 176))) = [6, 5, 4, 3, 2, 1, 0, 0] \<and>
   current (snd (ngx_palloc pool_7_chunks 176)) = 1"
proof -
  have h1: "176 \<le> max_p pool_7_chunks" by (simp add: pool_7_chunks_def)
  have h2: "palloc_scan (chunks pool_7_chunks) (current pool_7_chunks) 176 = None"
    by code_simp
  have h3: "os pool_7_chunks = 32768 # [36864]" by (simp add: pool_7_chunks_def)
  have h4: "(32768 :: addr) \<noteq> 0" by simp
  note t = ngx_palloc_grow_walk [OF h1 h2 h3 h4]
  have "map d_failed (chunks (snd (ngx_palloc pool_7_chunks 176))) = [6, 5, 4, 3, 2, 1, 0, 0]"
    unfolding t by code_simp
  moreover have "current (snd (ngx_palloc pool_7_chunks 176)) = 1"
    unfolding t by code_simp
  ultimately show ?thesis using h1 h2 h3 by simp
qed

text \<open>
  The claim as stated fails on the pool whose first chunk has been counted four times:
  the walk of the next grow is the fifth over that chunk and leaves its counter at 5,
  which exceeds 4, and \<open>current\<close> still points to that chunk. It moves only with the walk
  after that one.
\<close>

theorem ngx_palloc_fifth_failure_keeps_current:
  "d_failed (chunks pool_6_chunks ! 0) = 4 \<and> current pool_6_chunks = 0 \<and>
   length (chunks (snd (ngx_palloc pool_6_chunks 176))) = 7 \<and>
   d_failed (chunks (snd (ngx_palloc pool_6_chunks 176)) ! 0) = 5 \<and>
   current (snd (ngx_palloc pool_6_chunks 176)) = 0"
  by code_simp

subsection \<open>Large allocation\<close>

lemma le3_cases: "\<not> (3::64 word) < n \<Longrightarrow> n = 0 \<or> n = 1 \<or> n = 2 \<or> n = 3"
  by unat_arith

lemma inspected_Suc: "\<not> 3 < n \<Longrightarrow> inspected n = Suc (inspected (n + 1))"
  by (drule le3_cases) (auto simp: inspected_def)

lemma large_reuse_None:
  "large_reuse ls n p = None \<longleftrightarrow> (\<forall>l \<in> set (take (inspected n) ls). alloc l \<noteq> 0)"
proof (induction ls arbitrary: n)
  case Nil
  then show ?case by simp
next
  case (Cons l ls)
  show ?case
  proof (cases "3 < n")
    case True
    then show ?thesis by (simp add: inspected_def)
  next
    case False
    then show ?thesis using Cons.IH [of "n + 1"] by (simp add: inspected_Suc)
  qed
qed

lemma large_reuse_Some:
  "large_reuse ls n p = Some ls' \<Longrightarrow>
     \<exists>i < inspected n. i < length ls \<and> alloc (ls ! i) = 0 \<and> (\<forall>j<i. alloc (ls ! j) \<noteq> 0)
        \<and> ls' = ls[i := (ls ! i)\<lparr>alloc := p\<rparr>]"
proof (induction ls arbitrary: n ls')
  case Nil
  then show ?case by simp
next
  case (Cons l ls)
  show ?case
  proof (cases "alloc l = 0")
    case True
    with Cons.prems have "ls' = l\<lparr>alloc := p\<rparr> # ls" by simp
    moreover have "0 < inspected n" by (simp add: inspected_def) unat_arith
    ultimately show ?thesis using True by (intro exI [of _ 0]) simp
  next
    case False
    with Cons.prems have n: "\<not> 3 < n" by (auto split: if_splits)
    with False Cons.prems obtain ls'' where r: "large_reuse ls (n + 1) p = Some ls''"
      and l': "ls' = l # ls''" by auto
    from Cons.IH [OF r] obtain i where i: "i < inspected (n + 1)" "i < length ls"
      "alloc (ls ! i) = 0" "\<forall>j<i. alloc (ls ! j) \<noteq> 0" "ls'' = ls[i := (ls ! i)\<lparr>alloc := p\<rparr>]"
      by blast
    have "\<forall>j<Suc i. alloc ((l # ls) ! j) \<noteq> 0"
      using False i(4) by (auto simp: nth_Cons split: nat.splits)
    with i l' n show ?thesis
      by (intro exI [of _ "Suc i"]) (simp add: inspected_Suc)
  qed
qed
lemma inspected_0: "inspected 0 = 5"
  by (simp add: inspected_def)

text \<open>
  C3, as amended. A large allocation through \<open>ngx_palloc_large\<close> for which the underlying
  allocator returns a block \<open>p\<close> inspects at most the first 5 entries of the large list
  for a tombstone. If one of them has a null \<open>alloc\<close>, \<open>p\<close> is installed in the first
  such entry and the list keeps its length. If none has, and an entry fits the small path
  (\<open>sizeof(ngx_pool_large_t) \<le> max\<close>), the entry is allocated with \<open>ngx_palloc\<close>, which
  leaves the large list alone; when that allocation succeeds the entry gets \<open>p\<close> and is
  pushed at the head of the list, and when it fails \<open>p\<close> is freed and null is returned.
\<close>

theorem ngx_palloc_large_tombstone_window:
  assumes os: "os pl = p # rest" and p: "p \<noteq> 0"
  shows "((\<exists>i<5. i < length (large pl) \<and> alloc (large pl ! i) = 0) \<longrightarrow>
           (\<exists>i<5. i < length (large pl) \<and> alloc (large pl ! i) = 0 \<and>
               (\<forall>j<i. alloc (large pl ! j) \<noteq> 0) \<and>
               ngx_palloc_large pl sz =
                 (p, pl\<lparr>os := rest, large := (large pl)[i := \<lparr>alloc = p\<rparr>]\<rparr>))) \<and>
        ((\<forall>i<5. i < length (large pl) \<longrightarrow> alloc (large pl ! i) \<noteq> 0) \<longrightarrow>
         sizeof_ngx_pool_large_t \<le> max_p pl \<longrightarrow>
           (case ngx_palloc (pl\<lparr>os := rest\<rparr>) sizeof_ngx_pool_large_t of
              (l, pool2) \<Rightarrow>
                large pool2 = large pl \<and>
                ngx_palloc_large pl sz =
                  (if l = 0 then (0, ngx_free p pool2)
                   else (p, pool2\<lparr>large := \<lparr>alloc = p\<rparr> # large pl\<rparr>))))"
proof -
  have a: "ngx_alloc sz pl = (p, pl\<lparr>os := rest\<rparr>)"
    using os by (simp add: ngx_alloc_def)
  have A: "(\<exists>i<5. i < length (large pl) \<and> alloc (large pl ! i) = 0) \<longrightarrow>
           (\<exists>i<5. i < length (large pl) \<and> alloc (large pl ! i) = 0 \<and>
               (\<forall>j<i. alloc (large pl ! j) \<noteq> 0) \<and>
               ngx_palloc_large pl sz =
                 (p, pl\<lparr>os := rest, large := (large pl)[i := \<lparr>alloc = p\<rparr>]\<rparr>))"
  proof
    assume "\<exists>i<5. i < length (large pl) \<and> alloc (large pl ! i) = 0"
    then obtain i where i: "i < 5" "i < length (large pl)" "alloc (large pl ! i) = 0"
      by blast
    then have "large pl ! i \<in> set (take (inspected 0) (large pl))"
      by (simp add: inspected_0 in_set_conv_nth) (metis nth_take min_less_iff_conj length_take)
    with i(3) have "large_reuse (large pl) 0 p \<noteq> None"
      by (auto simp: large_reuse_None)
    then obtain ls' where r: "large_reuse (large pl) 0 p = Some ls'" by blast
    from large_reuse_Some [OF r] obtain k where k: "k < 5" "k < length (large pl)"
      "alloc (large pl ! k) = 0" "\<forall>j<k. alloc (large pl ! j) \<noteq> 0"
      "ls' = (large pl)[k := (large pl ! k)\<lparr>alloc := p\<rparr>]"
      by (auto simp: inspected_0)
    have "ngx_palloc_large pl sz = (p, pl\<lparr>os := rest, large := ls'\<rparr>)"
      using a p r by (subst ngx_palloc_large.simps) simp
    moreover have "(large pl ! k)\<lparr>alloc := p\<rparr> = \<lparr>alloc = p\<rparr>"
      by simp
    ultimately show "\<exists>i<5. i < length (large pl) \<and> alloc (large pl ! i) = 0 \<and>
               (\<forall>j<i. alloc (large pl ! j) \<noteq> 0) \<and>
               ngx_palloc_large pl sz =
                 (p, pl\<lparr>os := rest, large := (large pl)[i := \<lparr>alloc = p\<rparr>]\<rparr>)"
      using k by auto
  qed
  have B: "(\<forall>i<5. i < length (large pl) \<longrightarrow> alloc (large pl ! i) \<noteq> 0) \<longrightarrow>
         sizeof_ngx_pool_large_t \<le> max_p pl \<longrightarrow>
           (case ngx_palloc (pl\<lparr>os := rest\<rparr>) sizeof_ngx_pool_large_t of
              (l, pool2) \<Rightarrow>
                large pool2 = large pl \<and>
                ngx_palloc_large pl sz =
                  (if l = 0 then (0, ngx_free p pool2)
                   else (p, pool2\<lparr>large := \<lparr>alloc = p\<rparr> # large pl\<rparr>)))"
  proof (intro impI)
    assume none: "\<forall>i<5. i < length (large pl) \<longrightarrow> alloc (large pl ! i) \<noteq> 0"
      and small: "sizeof_ngx_pool_large_t \<le> max_p pl"
    have "\<forall>l \<in> set (take (inspected 0) (large pl)). alloc l \<noteq> 0"
      using none by (auto simp: inspected_0 in_set_conv_nth)
    then have r: "large_reuse (large pl) 0 p = None"
      by (simp add: large_reuse_None)
    obtain l pool2 where q: "ngx_palloc (pl\<lparr>os := rest\<rparr>) sizeof_ngx_pool_large_t = (l, pool2)"
      by (cases "ngx_palloc (pl\<lparr>os := rest\<rparr>) sizeof_ngx_pool_large_t")
    have lg: "large pool2 = large pl"
      using ngx_palloc_small_large [of sizeof_ngx_pool_large_t "pl\<lparr>os := rest\<rparr>"] small q
      by simp
    have "ngx_palloc_large pl sz =
            (if l = 0 then (0, ngx_free p pool2)
             else (p, pool2\<lparr>large := \<lparr>alloc = p\<rparr> # large pl\<rparr>))"
      using a p r q lg by (subst ngx_palloc_large.simps) simp
    with q lg show "case ngx_palloc (pl\<lparr>os := rest\<rparr>) sizeof_ngx_pool_large_t of
              (l, pool2) \<Rightarrow>
                large pool2 = large pl \<and>
                ngx_palloc_large pl sz =
                  (if l = 0 then (0, ngx_free p pool2)
                   else (p, pool2\<lparr>large := \<lparr>alloc = p\<rparr> # large pl\<rparr>))"
      by simp
  qed
  from A B show ?thesis by blast
qed

theorem ngx_palloc_large_tombstone_window_witness:
  "os pool_3_large = 262144 # [327680, 393216, 458752] \<and> (262144 :: addr) \<noteq> 0 \<and>
   alloc (large pool_3_large ! 1) = 0 \<and>
   (\<exists>i<5. i < length (large pool_3_large) \<and> alloc (large pool_3_large ! i) = 0 \<and>
      (\<forall>j<i. alloc (large pool_3_large ! j) \<noteq> 0) \<and>
      ngx_palloc_large pool_3_large 5000 =
        (262144, pool_3_large\<lparr>os := [327680, 393216, 458752],
                              large := (large pool_3_large)[i := \<lparr>alloc = 262144\<rparr>]\<rparr>)) \<and>
   sizeof_ngx_pool_large_t \<le> max_p pool_256 \<and> large pool_256 = [] \<and>
   ngx_palloc_large pool_256 5000 =
     (8192, pool_256\<lparr>os := [12288, 16384, 20480, 24576, 28672, 32768, 36864],
                      chunks := [\<lparr>base = 4096, d_last = 4192, d_end = 4352, d_failed = 0\<rparr>],
                      large := [\<lparr>alloc = 8192\<rparr>]\<rparr>)"
proof -
  have h1: "os pool_3_large = 262144 # [327680, 393216, 458752]"
    by (simp add: pool_3_large_def)
  have h2: "(262144 :: addr) \<noteq> 0" by simp
  have h3: "alloc (large pool_3_large ! 1) = 0" by (simp add: pool_3_large_def)
  have "\<exists>i<5. i < length (large pool_3_large) \<and> alloc (large pool_3_large ! i) = 0"
    using h3 by (intro exI [of _ 1]) (simp add: pool_3_large_def)
  with ngx_palloc_large_tombstone_window [OF h1 h2, of 5000]
  have a: "\<exists>i<5. i < length (large pool_3_large) \<and> alloc (large pool_3_large ! i) = 0 \<and>
      (\<forall>j<i. alloc (large pool_3_large ! j) \<noteq> 0) \<and>
      ngx_palloc_large pool_3_large 5000 =
        (262144, pool_3_large\<lparr>os := [327680, 393216, 458752],
                              large := (large pool_3_large)[i := \<lparr>alloc = 262144\<rparr>]\<rparr>)"
    by blast
  have g1: "os pool_256 = 8192 # [12288, 16384, 20480, 24576, 28672, 32768, 36864]"
    by (simp add: pool_256_def)
  have g2: "(8192 :: addr) \<noteq> 0" by simp
  have g3: "sizeof_ngx_pool_large_t \<le> max_p pool_256"
    by (simp add: pool_256_def sizeof_ngx_pool_large_t_def)
  have g4: "large pool_256 = []" by (simp add: pool_256_def)
  have g5: "ngx_palloc (pool_256\<lparr>os := [12288, 16384, 20480, 24576, 28672, 32768, 36864]\<rparr>)
              sizeof_ngx_pool_large_t =
            (4176, pool_256\<lparr>os := [12288, 16384, 20480, 24576, 28672, 32768, 36864],
               chunks := [\<lparr>base = 4096, d_last = 4192, d_end = 4352, d_failed = 0\<rparr>]\<rparr>)"
    by code_simp
  have b: "ngx_palloc_large pool_256 5000 =
     (8192, pool_256\<lparr>os := [12288, 16384, 20480, 24576, 28672, 32768, 36864],
                      chunks := [\<lparr>base = 4096, d_last = 4192, d_end = 4352, d_failed = 0\<rparr>],
                      large := [\<lparr>alloc = 8192\<rparr>]\<rparr>)"
    using ngx_palloc_large_tombstone_window [OF g1 g2, of 5000] g3 g4
    by (simp add: g5)
  from h1 h2 h3 a g3 g4 b show ?thesis by blast
qed

text \<open>
  The claim as stated, with a window of 4 entries, fails on the pool whose large list has
  four live entries followed by a tombstone: no tombstone is among the first 4 entries,
  yet no entry is created; the block goes into the fifth entry.
\<close>

theorem ngx_palloc_large_fifth_entry_reused:
  "map alloc (take 4 (large pool_5_large)) = [327680, 262144, 196608, 131072] \<and>
   fst (ngx_palloc_large pool_5_large 5000) = 393216 \<and>
   map alloc (large (snd (ngx_palloc_large pool_5_large 5000))) =
     [327680, 262144, 196608, 131072, 393216]"
  by code_simp

subsection \<open>Cleanup handlers at destruction\<close>

lemma centry_cwrite: "centry (cwrite a e m) b = (if b = a then e else centry m b)"
proof -
  have "map_of (filter (\<lambda>x. fst x \<noteq> a) m) b = map_of m b" if "b \<noteq> a"
    using that by (induction m) auto
  then show ?thesis by (auto simp: centry_def cwrite_def)
qed

lemma clist_frame:
  "clist m p as \<Longrightarrow> (\<forall>a \<in> set as. centry m' a = centry m a) \<Longrightarrow> clist m' p as"
  by (induction as arbitrary: p) auto

lemma run_cleanups_clist:
  "clist m c as \<Longrightarrow> run_cleanups m c tr = Some (tr @ calls_of m as)"
proof (induction as arbitrary: c tr)
  case Nil
  then show ?case by (subst run_cleanups.simps) (simp add: calls_of_def)
next
  case (Cons a as)
  then have c: "c = a" "a \<noteq> 0" and r: "clist m (next_c (centry m a)) as" by simp_all
  show ?case
    unfolding c(1)
    by (subst run_cleanups.simps) (use c(2) Cons.IH [OF r] in \<open>simp add: calls_of_def\<close>)
qed

lemma cleanup_calls_clist:
  "clist m c as \<Longrightarrow> length as \<le> n \<Longrightarrow> cleanup_calls n m c = calls_of m as"
proof (induction n arbitrary: c as)
  case 0
  then show ?case by (simp add: calls_of_def)
next
  case (Suc n)
  show ?case
  proof (cases as)
    case Nil
    with Suc.prems show ?thesis by (simp add: calls_of_def)
  next
    case (Cons a as')
    with Suc.prems have c: "c = a" "a \<noteq> 0" and r: "clist m (next_c (centry m a)) as'"
      and l: "length as' \<le> n" by simp_all
    from Suc.IH [OF r l] c Cons show ?thesis by (simp add: calls_of_def)
  qed
qed

text \<open>A stack whose links stay inside a set of entries is walked forever.\<close>

lemma run_cleanups_cycle:
  assumes "\<forall>c \<in> S. c \<noteq> 0 \<and> next_c (centry m c) \<in> S"
  shows "c \<in> S \<Longrightarrow> run_cleanups m c tr = None"
proof -
  have step: "(\<forall>c \<in> S. c \<noteq> 0 \<and> next_c (centry m c) \<in> S) \<longrightarrow> c \<notin> S"
    if ih: "\<And>m c tr y. f m c tr = Some y \<Longrightarrow>
              (\<forall>c \<in> S. c \<noteq> 0 \<and> next_c (centry m c) \<in> S) \<longrightarrow> c \<notin> S"
      and eq: "(if c = 0 then Some tr
                else f m (next_c (centry m c))
                       (if handler (centry m c) \<noteq> 0
                        then tr @ [Run (handler (centry m c)) (data (centry m c))] else tr))
               = Some y"
    for f m c tr y
  proof (intro impI notI)
    assume s: "\<forall>c \<in> S. c \<noteq> 0 \<and> next_c (centry m c) \<in> S" and c: "c \<in> S"
    then have "c \<noteq> 0" and n: "next_c (centry m c) \<in> S" by auto
    with eq obtain tr' where "f m (next_c (centry m c)) tr' = Some y"
      by (auto split: if_splits)
    from ih [OF this] s n show False by simp
  qed
  have "(\<forall>c \<in> S. c \<noteq> 0 \<and> next_c (centry m c) \<in> S) \<longrightarrow> c \<notin> S"
    if "run_cleanups m c tr = Some y" for y
    by (rule run_cleanups.raw_induct
          [where P = "\<lambda>m c tr y. (\<forall>c \<in> S. c \<noteq> 0 \<and> next_c (centry m c) \<in> S) \<longrightarrow> c \<notin> S",
           OF step that])
  with assms show "c \<in> S \<Longrightarrow> run_cleanups m c tr = None"
    by (cases "run_cleanups m c tr") auto
qed

text \<open>
  A registration whose entry is not at the address of a linked entry pushes the entry on
  the stack and leaves the linked entries as they are.
\<close>

lemma ngx_pool_cleanup_add_push:
  assumes add: "ngx_pool_cleanup_add p sz = (c, p1)" and c: "c \<noteq> 0"
    and l: "clist (cmem p) (cleanup p) as" and fresh: "c \<notin> set as"
  shows "clist (cmem p1) (cleanup p1) (c # as)"
    and "\<forall>a \<in> set as. centry (cmem p1) a = centry (cmem p) a"
    and "handler (centry (cmem p1) c) = 0"
proof -
  obtain c' q1 where a1: "ngx_palloc p sizeof_ngx_pool_cleanup_t = (c', q1)"
    by (cases "ngx_palloc p sizeof_ngx_pool_cleanup_t")
  obtain dt q2 where a2: "ngx_palloc q1 sz = (dt, q2)" by (cases "ngx_palloc q1 sz")
  have f1: "cleanup q1 = cleanup p" "cmem q1 = cmem p"
    using ngx_palloc_cleanup(1) [of p sizeof_ngx_pool_cleanup_t] a1 by simp_all
  have f2: "cleanup q2 = cleanup p" "cmem q2 = cmem p"
    using ngx_palloc_cleanup(1) [of q1 sz] a2 f1 by simp_all
  from add c a1 a2 f1 f2 obtain d where
    r: "c' = c" "cleanup p1 = c"
      "cmem p1 = cwrite c \<lparr>handler = 0, data = d, next_c = cleanup p\<rparr> (cmem p)"
    by (auto simp: ngx_pool_cleanup_add_def split: if_splits)
  show old: "\<forall>a \<in> set as. centry (cmem p1) a = centry (cmem p) a"
    using fresh by (auto simp: r(3) centry_cwrite)
  have "clist (cmem p1) (cleanup p) as" using l old by (rule clist_frame)
  then show "clist (cmem p1) (cleanup p1) (c # as)"
    using c by (simp add: r centry_cwrite)
  show "handler (centry (cmem p1) c) = 0" by (simp add: r(3) centry_cwrite)
qed

lemma register_all_stack:
  "register_all p hs = Some p' \<Longrightarrow> clist (cmem p) (cleanup p) as \<Longrightarrow>
   fresh_registrations p hs as \<Longrightarrow>
     \<exists>cs. length cs = length hs \<and> clist (cmem p') (cleanup p') (rev cs @ as) \<and>
          (\<forall>a \<in> set as. centry (cmem p') a = centry (cmem p) a) \<and>
          map (\<lambda>c. handler (centry (cmem p') c)) cs = map snd hs"
proof (induction hs arbitrary: p as)
  case Nil
  then show ?case by simp
next
  case (Cons x hs)
  obtain sz h where x: "x = (sz, h)" by (cases x)
  obtain c p1 where add: "ngx_pool_cleanup_add p sz = (c, p1)"
    by (cases "ngx_pool_cleanup_add p sz")
  let ?p2 = "set_handler p1 c h"
  from Cons.prems(1) x add have c: "c \<noteq> 0" and rest: "register_all ?p2 hs = Some p'"
    by (auto split: if_splits)
  from Cons.prems(3) x add have fresh: "c \<notin> set as"
    and fr: "fresh_registrations ?p2 hs (c # as)" by simp_all
  note push = ngx_pool_cleanup_add_push [OF add c Cons.prems(2) fresh]
  have e2: "centry (cmem ?p2) a = (if a = c then (centry (cmem p1) c)\<lparr>handler := h\<rparr>
                                    else centry (cmem p1) a)" for a
    by (simp add: set_handler_def centry_cwrite)
  have cl2: "clist (cmem ?p2) (cleanup ?p2) (c # as)"
  proof -
    have cp: "cleanup ?p2 = c" using push(1) by (simp add: set_handler_def)
    have nx: "next_c (centry (cmem ?p2) c) = next_c (centry (cmem p1) c)" by (simp add: e2)
    have "clist (cmem p1) (next_c (centry (cmem p1) c)) as" using push(1) by simp
    moreover have "\<forall>a \<in> set as. centry (cmem ?p2) a = centry (cmem p1) a"
      using fresh by (auto simp: e2)
    ultimately have "clist (cmem ?p2) (next_c (centry (cmem p1) c)) as" by (rule clist_frame)
    then show ?thesis using c by (simp only: clist.simps cp nx simp_thms)
  qed
  from Cons.IH [OF rest cl2 fr] obtain cs where
    cs: "length cs = length hs" "clist (cmem p') (cleanup p') (rev cs @ c # as)"
      "\<forall>a \<in> set (c # as). centry (cmem p') a = centry (cmem ?p2) a"
      "map (\<lambda>c. handler (centry (cmem p') c)) cs = map snd hs"
    by blast
  have old: "\<forall>a \<in> set as. centry (cmem p') a = centry (cmem p) a"
    using cs(3) push(2) fresh by (auto simp: e2)
  have hc: "handler (centry (cmem p') c) = h" using cs(3) by (simp add: e2)
  show ?case
    using cs(1,2,4) old hc x
    by (intro exI [of _ "c # cs"]) simp
qed

text \<open>
  Registrations that never reuse the address of a linked entry, on a pool whose stack ends
  with null: \<open>ngx_destroy_pool\<close> first calls the handlers that are not null in reverse
  registration order, each on the data of its entry, then those of the entries that the
  pool already had, and only then frees.
\<close>

lemma ngx_destroy_pool_cleanup_lifo_fresh:
  assumes "register_all p hs = Some p'" and "clist (cmem p) (cleanup p) as"
    and "fresh_registrations p hs as"
  shows "\<exists>ds frees. length ds = length hs \<and> list_all is_Free frees \<and>
     ngx_destroy_pool p' =
       Some (trace p' @
         map (\<lambda>(h, d). Run h d) (filter (\<lambda>(h, d). h \<noteq> 0) (rev (zip (map snd hs) ds))) @
         calls_of (cmem p) as @ frees)"
proof -
  from register_all_stack [OF assms] obtain cs where
    cs: "length cs = length hs" "clist (cmem p') (cleanup p') (rev cs @ as)"
      "\<forall>a \<in> set as. centry (cmem p') a = centry (cmem p) a"
      "map (\<lambda>c. handler (centry (cmem p') c)) cs = map snd hs"
    by blast
  let ?ds = "map (\<lambda>c. data (centry (cmem p') c)) cs"
  let ?frees = "free_larges (large p') @ map (\<lambda>c. Free (base c)) (chunks p')"
  have fr: "list_all is_Free ?frees"
    by (auto simp: list_all_iff free_larges_def is_Free_def)
  have old: "calls_of (cmem p') as = calls_of (cmem p) as"
    unfolding calls_of_def using cs(3)
    by (metis (mono_tags, lifting) filter_cong map_eq_conv mem_Collect_eq set_filter)
  have z: "zip (map snd hs) ?ds =
           map (\<lambda>c. (handler (centry (cmem p') c), data (centry (cmem p') c))) cs"
    unfolding cs(4) [symmetric] by (simp add: zip_map_map zip_same_conv_map)
  have new: "calls_of (cmem p') (rev cs) =
      map (\<lambda>(h, d). Run h d) (filter (\<lambda>(h, d). h \<noteq> 0) (rev (zip (map snd hs) ?ds)))"
    unfolding z calls_of_def by (simp add: rev_map filter_map comp_def)
  have "calls_of (cmem p') (rev cs @ as) = calls_of (cmem p') (rev cs) @ calls_of (cmem p') as"
    by (simp add: calls_of_def)
  with run_cleanups_clist [OF cs(2), of "trace p'"] old new
  have "run_cleanups (cmem p') (cleanup p') (trace p') =
      Some (trace p' @
        map (\<lambda>(h, d). Run h d) (filter (\<lambda>(h, d). h \<noteq> 0) (rev (zip (map snd hs) ?ds))) @
        calls_of (cmem p) as)"
    by simp
  then have "ngx_destroy_pool p' =
       Some (trace p' @
         map (\<lambda>(h, d). Run h d) (filter (\<lambda>(h, d). h \<noteq> 0) (rev (zip (map snd hs) ?ds))) @
         calls_of (cmem p) as @ ?frees)"
    by (simp add: ngx_destroy_pool_def)
  with fr cs(1) show ?thesis
    by (intro exI [of _ ?ds] exI [of _ ?frees]) simp
qed

lemma pool_3_cleanups_registered:
  "register_all pool_256 three_handlers = Some pool_3_cleanups"
  by code_simp

lemma pool_3_cleanups_fresh: "fresh_registrations pool_256 three_handlers []"
  by code_simp

lemma pool_3_cleanups_destroyed:
  "ngx_destroy_pool pool_3_cleanups = Some [Run 103 4248, Run 102 0, Run 101 0, Free 4096]"
proof -
  have "clist (cmem pool_3_cleanups) (cleanup pool_3_cleanups) [4224, 4200, 4176]"
    by (simp add: pool_3_cleanups_def centry_def)
  from run_cleanups_clist [OF this, of "trace pool_3_cleanups"]
  show ?thesis
    by (simp add: ngx_destroy_pool_def calls_of_def pool_3_cleanups_def centry_def
        free_larges_def)
qed

text \<open>
  C6. Three cleanups with the handlers 101, 102 and 103 are registered on the pool of
  chunk size 256; their entries are at 4176, 4200 and 4224. \<open>ngx_reset_pool\<close> moves the
  cursor back to 4176 and leaves \<open>pool->cleanup\<close> at 4224. The registration of a fourth
  cleanup, with the handler 104, gets 4176 again and writes its entry there, with the old
  head 4224 as \<open>next\<close>: the stack is now the cycle 4176, 4224, 4200, 4176. The first loop
  of \<open>ngx_destroy_pool\<close> calls 104, 103, 102, 104, 103, 102, 104 and so on: the handler
  101 is never called, the loop never ends, and nothing is freed. Reverse registration
  order would be 104, 103, 102, 101, followed by the frees.
\<close>

theorem ngx_destroy_pool_cycle_after_reset:
  "register_all pool_256 three_handlers = Some pool_3_cleanups \<and>
   register_all (ngx_reset_pool pool_3_cleanups) [(0, 104)] = Some pool_cleanup_cycle \<and>
   cleanup_calls 7 (cmem pool_cleanup_cycle) (cleanup pool_cleanup_cycle) =
     [Run 104 0, Run 103 4248, Run 102 0, Run 104 0, Run 103 4248, Run 102 0, Run 104 0] \<and>
   ngx_destroy_pool pool_cleanup_cycle = None"
proof -
  have a: "register_all pool_256 three_handlers = Some pool_3_cleanups"
    by code_simp
  have b: "register_all (ngx_reset_pool pool_3_cleanups) [(0, 104)] = Some pool_cleanup_cycle"
    by code_simp
  have c: "cleanup_calls 7 (cmem pool_cleanup_cycle) (cleanup pool_cleanup_cycle) =
     [Run 104 0, Run 103 4248, Run 102 0, Run 104 0, Run 103 4248, Run 102 0, Run 104 0]"
    by code_simp
  have "\<forall>c \<in> {4176, 4224, 4200}.
          c \<noteq> 0 \<and> next_c (centry (cmem pool_cleanup_cycle) c) \<in> {4176, 4224, 4200}"
    by (simp add: pool_cleanup_cycle_def centry_def)
  from run_cleanups_cycle [OF this, of 4176 "trace pool_cleanup_cycle"]
  have "run_cleanups (cmem pool_cleanup_cycle) (cleanup pool_cleanup_cycle)
          (trace pool_cleanup_cycle) = None"
    by (simp add: pool_cleanup_cycle_def)
  then have d: "ngx_destroy_pool pool_cleanup_cycle = None"
    by (simp add: ngx_destroy_pool_def)
  from a b c d show ?thesis by simp
qed

subsection \<open>Reset\<close>

text \<open>
  What \<open>ngx_reset_pool\<close> does: the non-null large allocations are freed in list order and
  the large list is emptied; every chunk keeps its address and its end, gets a zero
  \<open>failed\<close> counter and has its cursor set to its address plus \<open>sizeof(ngx_pool_t)\<close>;
  \<open>current\<close> is the first chunk; the pointer to the cleanup stack and the entries are
  left as they are.
\<close>

lemma ngx_reset_pool_effect:
  "trace (ngx_reset_pool pl) = trace pl @ free_larges (large pl) \<and>
   large (ngx_reset_pool pl) = [] \<and>
   length (chunks (ngx_reset_pool pl)) = length (chunks pl) \<and>
   (\<forall>i < length (chunks pl).
      base (chunks (ngx_reset_pool pl) ! i) = base (chunks pl ! i) \<and>
      d_end (chunks (ngx_reset_pool pl) ! i) = d_end (chunks pl ! i) \<and>
      d_failed (chunks (ngx_reset_pool pl) ! i) = 0 \<and>
      d_last (chunks (ngx_reset_pool pl) ! i) = base (chunks pl ! i) + sizeof_ngx_pool_t) \<and>
   current (ngx_reset_pool pl) = 0 \<and>
   cleanup (ngx_reset_pool pl) = cleanup pl \<and>
   cmem (ngx_reset_pool pl) = cmem pl"
  by (simp add: ngx_reset_pool_def)

text \<open>
  C4. The claim asks that after a reset the cursor of every chunk but the first points
  just past the small per-chunk header, where \<open>ngx_palloc_block\<close> starts a new chunk.
  On the pool with two chunks the reset leaves the cursor of the second chunk at its
  address plus the size of the full pool handle, 48 bytes further.
\<close>

theorem ngx_reset_pool_second_chunk_cursor:
  "palloc_times pool_256 2 176 = pool_2_chunks \<and>
   base (chunks (ngx_reset_pool pool_2_chunks) ! 1) = 8192 \<and>
   d_last (chunks (ngx_reset_pool pool_2_chunks) ! 1) = 8192 + sizeof_ngx_pool_t \<and>
   d_last (chunks (ngx_reset_pool pool_2_chunks) ! 1) \<noteq> 8192 + sizeof_ngx_pool_data_t"
  by code_simp

section \<open>Properties of the radix tree\<close>

subsection \<open>Bits and masks\<close>

lemma bitpos_eq: "bitpos i = (if i < 32 then 2 ^ (31 - i) else 0)"
proof -
  have "drop_bit i (2 ^ 31 :: uint32_t) =
          of_bool (i \<le> 31 \<and> possible_bit TYPE(uint32_t) 31) * 2 ^ (31 - i)"
    by (rule drop_bit_exp_eq)
  moreover have "possible_bit TYPE(uint32_t) 31" by simp
  ultimately show ?thesis by (auto simp: bitpos_def)
qed

lemma bitpos_0: "bitpos 0 = 0x80000000"
  by (simp add: bitpos_def)

lemma bitpos_Suc: "drop_bit (Suc 0) (bitpos i) = bitpos (Suc i)"
  by (simp add: bitpos_def drop_bit_drop_bit)

lemma bitpos_and: "bitpos i AND w \<noteq> 0 \<longleftrightarrow> kbit w i"
  by (auto simp: bitpos_eq kbit_def and_exp_eq_0_iff_not_bit and.commute)

lemma and_bitpos: "w AND bitpos i \<noteq> 0 \<longleftrightarrow> kbit w i"
  by (auto simp: bitpos_eq kbit_def and_exp_eq_0_iff_not_bit)

lemma kbit_32: "32 \<le> i \<Longrightarrow> \<not> kbit w i"
  by (simp add: kbit_def)

lemma mask_from_0: "\<not> kbit msk i \<Longrightarrow> mask_from msk i = 0"
  by (subst mask_from.simps) simp

lemma mask_from_Suc: "kbit msk i \<Longrightarrow> mask_from msk i = Suc (mask_from msk (Suc i))"
  by (subst mask_from.simps) simp

lemma mask_from_bound: "i + mask_from msk i \<le> max i 32"
proof (induction msk i rule: mask_from.induct)
  case (1 msk i)
  show ?case
  proof (cases "kbit msk i")
    case True
    then have "i < 32" by (simp add: kbit_def)
    with True "1.IH" show ?thesis by (simp add: mask_from_Suc)
  next
    case False
    then show ?thesis by (simp add: mask_from_0)
  qed
qed

lemma mask_len_le: "mask_len msk \<le> 32"
  using mask_from_bound [of 0 msk] by (simp add: mask_len_def)

lemma mask_from_set: "k < mask_from msk i \<Longrightarrow> kbit msk (i + k)"
proof (induction msk i arbitrary: k rule: mask_from.induct)
  case (1 msk i)
  show ?case
  proof (cases "kbit msk i")
    case True
    show ?thesis
    proof (cases k)
      case 0
      with True show ?thesis by simp
    next
      case (Suc k')
      with "1.prems" True have "k' < mask_from msk (Suc i)" by (simp add: mask_from_Suc)
      from "1.IH" [OF True this] Suc show ?thesis by simp
    qed
  next
    case False
    with "1.prems" show ?thesis by (simp add: mask_from_0)
  qed
qed

lemma mask_from_stop: "\<not> kbit msk (i + mask_from msk i)"
proof (induction msk i rule: mask_from.induct)
  case (1 msk i)
  show ?case
  proof (cases "kbit msk i")
    case True
    with "1.IH" show ?thesis by (simp add: mask_from_Suc)
  next
    case False
    then show ?thesis by (simp add: mask_from_0)
  qed
qed

lemma mask_from_unique:
  "(\<forall>k<n. kbit msk (i + k)) \<Longrightarrow> \<not> kbit msk (i + n) \<Longrightarrow> mask_from msk i = n"
proof (induction n arbitrary: i)
  case 0
  then show ?case by (simp add: mask_from_0)
next
  case (Suc n)
  from Suc.prems(1) have k: "kbit msk i" by (metis add.right_neutral zero_less_Suc)
  have "\<forall>k<n. kbit msk (Suc i + k)"
    using Suc.prems(1) by (metis Suc_less_eq add_Suc_shift)
  moreover have "\<not> kbit msk (Suc i + n)" using Suc.prems(2) by simp
  ultimately have "mask_from msk (Suc i) = n" by (rule Suc.IH)
  with k show ?case by (simp add: mask_from_Suc)
qed

lemma mask_from_split:
  "j \<le> mask_from msk i \<Longrightarrow> mask_from msk i = j + mask_from msk (i + j)"
proof (induction j arbitrary: i)
  case 0
  then show ?case by simp
next
  case (Suc j)
  then have "0 < mask_from msk i" by simp
  then have k: "kbit msk i" using mask_from_set [of 0 msk i] by simp
  with Suc.prems have "j \<le> mask_from msk (Suc i)" by (simp add: mask_from_Suc)
  from Suc.IH [OF this] k show ?case by (simp add: mask_from_Suc)
qed

lemma kbit_prefix_mask: "kbit (prefix_mask n) i \<longleftrightarrow> i < n \<and> i < 32"
  by (auto simp: kbit_def prefix_mask_def bit_simps)

lemma mask_len_prefix_mask: "n \<le> 32 \<Longrightarrow> mask_len (prefix_mask n) = n"
  unfolding mask_len_def
  by (rule mask_from_unique) (auto simp: kbit_prefix_mask)

lemma kbit_contiguous_part:
  "k \<le> mask_len msk \<Longrightarrow> kbit (contiguous_part msk) k = kbit msk k"
proof (cases "k < mask_len msk")
  case True
  then have "kbit msk k" using mask_from_set [of k msk 0] by (simp add: mask_len_def)
  moreover have "k < 32" using True mask_len_le [of msk] by simp
  ultimately show ?thesis using True by (simp add: contiguous_part_def kbit_prefix_mask)
next
  case False
  assume "k \<le> mask_len msk"
  with False have "k = mask_len msk" by simp
  then show ?thesis
    using mask_from_stop [of msk 0] by (simp add: contiguous_part_def kbit_prefix_mask mask_len_def)
qed

lemma mask_len_contiguous_part: "mask_len (contiguous_part msk) = mask_len msk"
  by (simp add: contiguous_part_def mask_len_prefix_mask mask_len_le)

subsection \<open>Paths\<close>

lemma child_null [simp]: "child m 0 c = 0"
  by (simp add: child_def)

lemma walk_null [simp]: "walk m 0 cs = 0"
  by (induction cs) simp_all

lemma walk_append: "walk m p (xs @ ys) = walk m (walk m p xs) ys"
  by (induction xs arbitrary: p) simp_all

lemma walk_snoc: "walk m p (xs @ [c]) = child m (walk m p xs) c"
  by (simp add: walk_append)

lemma key_bits_Suc: "key_bits key (Suc n) = key_bits key n @ [kbit key n]"
  by (simp add: key_bits_def)

lemma length_key_bits [simp]: "length (key_bits key n) = n"
  by (simp add: key_bits_def)

subsection \<open>The loops follow paths\<close>

lemma path_from_0 [simp]: "path_from key i 0 = []"
  by (simp add: path_from_def)

lemma path_from_Suc: "path_from key i (Suc n) = kbit key i # path_from key (Suc i) n"
  by (simp add: path_from_def upt_conv_Cons del: upt_Suc)

lemma path_from_snoc: "path_from key i (Suc n) = path_from key i n @ [kbit key (i + n)]"
  by (simp add: path_from_def)

lemma path_from_key_bits: "path_from key 0 n = key_bits key n"
  by (simp add: path_from_def key_bits_def)

lemma length_path_from [simp]: "length (path_from key i n) = n"
  by (simp add: path_from_def)

lemma delete_descend_walk:
  "delete_descend m key msk (bitpos i) node =
     walk m node (path_from key i (mask_from msk i))"
proof (induction msk i arbitrary: node rule: mask_from.induct)
  case (1 msk i)
  show ?case
  proof (cases "kbit msk i")
    case True
    show ?thesis
    proof (cases "node = 0")
      case True
      then show ?thesis by (subst delete_descend.simps) simp
    next
      case False
      have "delete_descend m key msk (bitpos i) node =
              delete_descend m key msk (bitpos (Suc i)) (child m node (kbit key i))"
        using False True
        by (subst delete_descend.simps)
           (simp add: bitpos_and and_bitpos bitpos_Suc child_def)
      also have "\<dots> = walk m (child m node (kbit key i))
                          (path_from key (Suc i) (mask_from msk (Suc i)))"
        by (rule "1.IH" [OF True])
      finally show ?thesis using True by (simp add: mask_from_Suc path_from_Suc)
    qed
  next
    case False
    then show ?thesis
      by (subst delete_descend.simps) (simp add: bitpos_and mask_from_0)
  qed
qed

lemma insert_descend_walk:
  "node \<noteq> 0 \<Longrightarrow>
   \<exists>j \<le> mask_from msk i.
     walk m node (path_from key i j) \<noteq> 0 \<and>
     insert_descend m key msk (bitpos i) node node =
       (bitpos (i + j), walk m node (path_from key i j),
        if j = mask_from msk i then walk m node (path_from key i j) else 0) \<and>
     (j < mask_from msk i \<longrightarrow> child m (walk m node (path_from key i j)) (kbit key (i + j)) = 0)"
proof (induction msk i arbitrary: node rule: mask_from.induct)
  case (1 msk i)
  show ?case
  proof (cases "kbit msk i")
    case True
    note k = True
    let ?nx = "child m node (kbit key i)"
    show ?thesis
    proof (cases "?nx = 0")
      case True
      have "insert_descend m key msk (bitpos i) node node = (bitpos i, node, 0)"
        using True k "1.prems"
        by (subst insert_descend.simps) (simp add: bitpos_and and_bitpos child_def Let_def)
      with True k "1.prems" show ?thesis
        by (intro exI [of _ 0]) (simp add: mask_from_Suc)
    next
      case False
      have step: "insert_descend m key msk (bitpos i) node node =
                    insert_descend m key msk (bitpos (Suc i)) ?nx ?nx"
        using False k "1.prems"
        by (subst insert_descend.simps)
           (simp add: bitpos_and and_bitpos bitpos_Suc child_def Let_def)
      from "1.IH" [OF k False] obtain j where j: "j \<le> mask_from msk (Suc i)"
        "walk m ?nx (path_from key (Suc i) j) \<noteq> 0"
        "insert_descend m key msk (bitpos (Suc i)) ?nx ?nx =
           (bitpos (Suc i + j), walk m ?nx (path_from key (Suc i) j),
            if j = mask_from msk (Suc i) then walk m ?nx (path_from key (Suc i) j) else 0)"
        "j < mask_from msk (Suc i) \<longrightarrow>
           child m (walk m ?nx (path_from key (Suc i) j)) (kbit key (Suc i + j)) = 0"
        by blast
      show ?thesis
        using j k step by (intro exI [of _ "Suc j"]) (simp add: mask_from_Suc path_from_Suc)
    qed
  next
    case False
    have "insert_descend m key msk (bitpos i) node node = (bitpos i, node, node)"
      using False by (subst insert_descend.simps) (simp add: bitpos_and)
    with False "1.prems" show ?thesis
      by (intro exI [of _ 0]) (simp add: mask_from_0)
  qed
qed

lemma walk_stays_null:
  "walk m p xs = 0 \<Longrightarrow> walk m p (xs @ ys) = 0"
  by (simp add: walk_append)

lemma path_from_add:
  "path_from key i (j + k) = path_from key i j @ path_from key (i + j) k"
proof -
  have "[i ..< (i + j) + k] = [i ..< i + j] @ [i + j ..< (i + j) + k]"
    by (rule upt_add_eq_append) simp
  then show ?thesis by (simp add: path_from_def add.assoc)
qed

text \<open>Where the first loop of the insert stops.\<close>

lemma insert_descend_root:
  fixes t :: ngx_radix_tree_t and key msk :: uint32_t
  assumes "root t \<noteq> 0"
  defines "p \<equiv> walk (nodes t) (root t) (key_bits key (mask_len msk))"
  shows "(p \<noteq> 0 \<longrightarrow>
            insert_descend (nodes t) key msk 0x80000000 (root t) (root t) =
              (bitpos (mask_len msk), p, p)) \<and>
         (p = 0 \<longrightarrow>
            (\<exists>j < mask_len msk.
               walk (nodes t) (root t) (key_bits key j) \<noteq> 0 \<and>
               child (nodes t) (walk (nodes t) (root t) (key_bits key j)) (kbit key j) = 0 \<and>
               insert_descend (nodes t) key msk 0x80000000 (root t) (root t) =
                 (bitpos j, walk (nodes t) (root t) (key_bits key j), 0)))"
proof -
  let ?m = "nodes t" and ?n = "mask_len msk"
  from insert_descend_walk [OF assms(1), of msk 0 ?m key] obtain j where
    j0: "j \<le> mask_from msk 0" "walk ?m (root t) (path_from key 0 j) \<noteq> 0"
       "insert_descend ?m key msk (bitpos 0) (root t) (root t) =
          (bitpos (0 + j), walk ?m (root t) (path_from key 0 j),
           if j = mask_from msk 0 then walk ?m (root t) (path_from key 0 j) else 0)"
       "j < mask_from msk 0 \<longrightarrow>
          child ?m (walk ?m (root t) (path_from key 0 j)) (kbit key (0 + j)) = 0"
    by blast
  have j: "j \<le> ?n" "walk ?m (root t) (key_bits key j) \<noteq> 0"
       "insert_descend ?m key msk 0x80000000 (root t) (root t) =
          (bitpos j, walk ?m (root t) (key_bits key j),
           if j = ?n then walk ?m (root t) (key_bits key j) else 0)"
       "j < ?n \<longrightarrow> child ?m (walk ?m (root t) (key_bits key j)) (kbit key j) = 0"
    using j0 by (simp_all add: mask_len_def path_from_key_bits bitpos_0)
  show ?thesis
  proof (cases "j = ?n")
    case True
    with j show ?thesis by (simp add: p_def)
  next
    case False
    with j(1) have lt: "j < ?n" by simp
    then obtain k where k: "?n = Suc j + k" using less_imp_Suc_add by blast
    have "key_bits key ?n = key_bits key (Suc j) @ path_from key (Suc j) k"
      unfolding k using path_from_add [of key 0 "Suc j" k] by (simp add: path_from_key_bits)
    moreover have "walk ?m (root t) (key_bits key (Suc j)) = 0"
      using j(4) lt by (simp add: key_bits_Suc walk_snoc)
    ultimately have "p = 0" by (simp add: p_def walk_append)
    with j lt False show ?thesis by auto
  qed
qed

subsection \<open>The concrete trees are reachable\<close>

lemma pool_1024_created: "ngx_create_pool 1024 0 [4096, 8192, 12288, 16384, 20480] = Some pool_1024"
  by (simp add: ngx_create_pool_def pool_1024_def sizeof_ngx_pool_t_def
      NGX_MAX_ALLOC_FROM_POOL_def ngx_pagesize_def)

lemma palloc_40: "ngx_palloc pool_1024 sizeof_ngx_radix_tree_t = (4176, pool_1024\<lparr>chunks := [\<lparr>base = 4096, d_last = 4216, d_end = 5120, d_failed = 0\<rparr>]\<rparr>)"
  by code_simp

lemma tree_empty_created: "ngx_radix_tree_create pool_1024 0 = Some (Inr (Some tree_empty))"
  apply (simp add: ngx_radix_tree_create_def palloc_40 ngx_radix_alloc_def)
  apply (simp add: sizeof_ngx_radix_node_t_def ngx_pmemalign_def ngx_memalign_def pool_1024_def ngx_pagesize_def)
  apply (subst ngx_palloc.simps)
  apply (subst palloc_scan.simps)
  apply (simp add: sizeof_ngx_pool_large_t_def ngx_align_ptr_def NGX_ALIGNMENT_def tree_empty_def pool_1024_def
      sizeof_ngx_radix_node_t_def ngx_pagesize_def)
  done

lemma tree_one_inserted:
  "ngx_radix32tree_insert tree_empty 0x80000000 0xC0000000 42 = Inr (NGX_OK, tree_one)"
  apply (simp add: ngx_radix32tree_insert_def tree_empty_def tree_one_def)
  apply (subst insert_descend.simps)
  apply (simp add: )
  apply (subst insert_extend.simps)
  apply (simp add: ngx_radix_alloc_def sizeof_ngx_radix_node_t_def)
  apply (subst insert_extend.simps)
  apply (simp add: ngx_radix_alloc_def sizeof_ngx_radix_node_t_def)
  apply (subst insert_extend.simps)
  apply (simp add: fun_upd_twist)
  done

subsection \<open>Busy inserts\<close>

text \<open>
  C5. On a tree with a root, let \<open>p\<close> be the node that the bits of \<open>key\<close> selected by the
  leading one bits of the mask lead to (null when the path leaves the tree). The insert
  returns \<open>NGX_BUSY\<close> exactly when \<open>p\<close> exists and carries a value other than
  \<open>NGX_RADIX_NO_VALUE\<close>, and then the tree is unchanged; when \<open>p\<close> exists and carries
  \<open>NGX_RADIX_NO_VALUE\<close>, the insert returns \<open>NGX_OK\<close> and the only change is that the
  value of \<open>p\<close> is \<open>v\<close>.
\<close>

theorem ngx_radix32tree_insert_busy_iff:
  assumes "root t \<noteq> 0"
  shows "let p = walk (nodes t) (root t) (key_bits key (mask_len msk)) in
     ((\<exists>t'. ngx_radix32tree_insert t key msk v = Inr (NGX_BUSY, t')) \<longleftrightarrow>
        p \<noteq> 0 \<and> value (nodes t p) \<noteq> NGX_RADIX_NO_VALUE) \<and>
     (p \<noteq> 0 \<and> value (nodes t p) \<noteq> NGX_RADIX_NO_VALUE \<longrightarrow>
        ngx_radix32tree_insert t key msk v = Inr (NGX_BUSY, t)) \<and>
     (p \<noteq> 0 \<and> value (nodes t p) = NGX_RADIX_NO_VALUE \<longrightarrow>
        ngx_radix32tree_insert t key msk v =
          Inr (NGX_OK, t\<lparr>nodes := (nodes t)(p := (nodes t p)\<lparr>value := v\<rparr>)\<rparr>))"
proof -
  let ?p = "walk (nodes t) (root t) (key_bits key (mask_len msk))"
  note d = insert_descend_root [OF assms, of key msk]
  show ?thesis
  proof (cases "?p = 0")
    case False
    with d have "insert_descend (nodes t) key msk 0x80000000 (root t) (root t) =
                   (bitpos (mask_len msk), ?p, ?p)" by simp
    with False assms show ?thesis
      by (simp add: ngx_radix32tree_insert_def Let_def)
  next
    case True
    with d obtain j where
      j: "insert_descend (nodes t) key msk 0x80000000 (root t) (root t) =
            (bitpos j, walk (nodes t) (root t) (key_bits key j), 0)"
      by blast
    obtain r t1 where
      e: "insert_extend t key msk (bitpos j) (walk (nodes t) (root t) (key_bits key j)) = (r, t1)"
      by (cases "insert_extend t key msk (bitpos j) (walk (nodes t) (root t) (key_bits key j))")
    have "\<forall>t'. ngx_radix32tree_insert t key msk v \<noteq> Inr (NGX_BUSY, t')"
      using assms j e by (cases r) (simp_all add: ngx_radix32tree_insert_def)
    with True show ?thesis by (simp add: Let_def)
  qed
qed

theorem ngx_radix32tree_insert_busy_iff_witness:
  "root tree_one \<noteq> 0 \<and>
   walk (nodes tree_one) (root tree_one) (key_bits 0x80000000 (mask_len 0xC0000000)) = 8256 \<and>
   value (nodes tree_one 8256) = 42 \<and>
   ngx_radix32tree_insert tree_one 0x80000000 0xC0000000 7 = Inr (NGX_BUSY, tree_one) \<and>
   walk (nodes tree_one) (root tree_one) (key_bits 0x80000000 (mask_len 0x80000000)) = 8224 \<and>
   ngx_radix32tree_insert tree_one 0x80000000 0x80000000 7 =
     Inr (NGX_OK, tree_one\<lparr>nodes := (nodes tree_one)
                                 (8224 := (nodes tree_one 8224)\<lparr>value := 7\<rparr>)\<rparr>)"
proof -
  have h: "root tree_one \<noteq> 0" by (simp add: tree_one_def tree_empty_def)
  have p: "walk (nodes tree_one) (root tree_one) (key_bits 0x80000000 (mask_len 0xC0000000)) = 8256"
    by code_simp
  have q: "walk (nodes tree_one) (root tree_one) (key_bits 0x80000000 (mask_len 0x80000000)) = 8224"
    by code_simp
  have v: "value (nodes tree_one 8256) = 42" "value (nodes tree_one 8224) = NGX_RADIX_NO_VALUE"
    by (simp_all add: tree_one_def)
  have n: "(42 :: uintptr_t) \<noteq> NGX_RADIX_NO_VALUE" by (simp add: NGX_RADIX_NO_VALUE_def)
  from ngx_radix32tree_insert_busy_iff [where t = tree_one and key = "0x80000000" and msk = "0xC0000000" and v = 7, OF h] p v n
  have a: "ngx_radix32tree_insert tree_one 0x80000000 0xC0000000 7 = Inr (NGX_BUSY, tree_one)"
    by (simp add: Let_def)
  from ngx_radix32tree_insert_busy_iff [where t = tree_one and key = "0x80000000" and msk = "0x80000000" and v = 7, OF h] q v
  have b: "ngx_radix32tree_insert tree_one 0x80000000 0x80000000 7 =
     Inr (NGX_OK, tree_one\<lparr>nodes := (nodes tree_one)
                                 (8224 := (nodes tree_one 8224)\<lparr>value := 7\<rparr>)\<rparr>)"
    by (simp add: Let_def)
  from h p v(1) a q b show ?thesis by simp
qed

subsection \<open>Deleting at a childless root\<close>

text \<open>
  C9. On a tree whose root has no children (and, as always, no parent), a delete with an
  all-zero mask stops its traversal at the root, enters the detaching loop with the root
  as its node, and faults on \<open>node->parent->right\<close>, the first thing the loop does: the
  parent pointer of the root is null. The delete of a leaf is safe only for a node with a
  parent.
\<close>

theorem ngx_radix32tree_delete_childless_root:
  assumes "root t \<noteq> 0"
    and "right (nodes t (root t)) = 0" and "left (nodes t (root t)) = 0"
    and "parent (nodes t (root t)) = 0"
  shows "delete_descend (nodes t) key 0 0x80000000 (root t) = root t \<and>
         delete_detach t (root t) = Some (Inl NullDeref) \<and>
         ngx_radix32tree_delete t key 0 = Some (Inl NullDeref)"
proof -
  have a: "delete_descend (nodes t) key 0 0x80000000 (root t) = root t"
    by (subst delete_descend.simps) simp
  have b: "delete_detach t (root t) = Some (Inl NullDeref)"
    using assms(4) by (subst delete_detach.simps) simp
  show ?thesis
    using a b assms by (simp add: ngx_radix32tree_delete_def)
qed

theorem ngx_radix32tree_delete_childless_root_witness:
  "root tree_empty \<noteq> 0 \<and> right (nodes tree_empty (root tree_empty)) = 0 \<and>
   left (nodes tree_empty (root tree_empty)) = 0 \<and>
   parent (nodes tree_empty (root tree_empty)) = 0 \<and>
   ngx_radix32tree_delete tree_empty 0xC0A80000 0 = Some (Inl NullDeref)"
proof -
  have h: "root tree_empty \<noteq> 0" "right (nodes tree_empty (root tree_empty)) = 0"
    "left (nodes tree_empty (root tree_empty)) = 0"
    "parent (nodes tree_empty (root tree_empty)) = 0"
    by (simp_all add: tree_empty_def)
  from ngx_radix32tree_delete_childless_root [where t = tree_empty and key = "0xC0A80000", OF h] h
  show ?thesis by simp
qed

subsection \<open>Only the leading one bits of a mask count\<close>

lemma insert_descend_mask_cong:
  "(\<forall>k. i \<le> k \<and> k \<le> i + mask_from msk i \<longrightarrow> kbit msk' k = kbit msk k) \<Longrightarrow>
   insert_descend m key msk' (bitpos i) nd nx = insert_descend m key msk (bitpos i) nd nx"
proof (induction msk i arbitrary: nd nx rule: mask_from.induct)
  case (1 msk i)
  show ?case
  proof (cases "kbit msk i")
    case True
    then have k': "kbit msk' i" using "1.prems" by simp
    have "\<forall>k. Suc i \<le> k \<and> k \<le> Suc i + mask_from msk (Suc i) \<longrightarrow> kbit msk' k = kbit msk k"
      using "1.prems" True by (simp add: mask_from_Suc)
    note ih = "1.IH" [OF True this]
    show ?thesis
      using True k' ih
      by (subst insert_descend.simps, subst (2) insert_descend.simps)
         (simp add: bitpos_and bitpos_Suc Let_def)
  next
    case False
    then have "\<not> kbit msk' i" using "1.prems" by simp
    with False show ?thesis
      by (subst insert_descend.simps, subst (2) insert_descend.simps) (simp add: bitpos_and)
  qed
qed

lemma insert_extend_mask_cong:
  "(\<forall>k. i \<le> k \<and> k \<le> i + mask_from msk i \<longrightarrow> kbit msk' k = kbit msk k) \<Longrightarrow>
   insert_extend t key msk' (bitpos i) nd = insert_extend t key msk (bitpos i) nd"
proof (induction msk i arbitrary: t nd rule: mask_from.induct)
  case (1 msk i)
  show ?case
  proof (cases "kbit msk i")
    case True
    then have k': "kbit msk' i" using "1.prems" by simp
    have "\<forall>k. Suc i \<le> k \<and> k \<le> Suc i + mask_from msk (Suc i) \<longrightarrow> kbit msk' k = kbit msk k"
      using "1.prems" True by (simp add: mask_from_Suc)
    note ih = "1.IH" [OF True this]
    show ?thesis
      using True k' ih
      by (subst insert_extend.simps, subst (2) insert_extend.simps)
         (simp add: bitpos_and bitpos_Suc Let_def split: prod.splits)
  next
    case False
    then have "\<not> kbit msk' i" using "1.prems" by simp
    with False show ?thesis
      by (subst insert_extend.simps, subst (2) insert_extend.simps) (simp add: bitpos_and)
  qed
qed

lemma delete_descend_mask_cong:
  "mask_from msk' i = mask_from msk i \<Longrightarrow>
   delete_descend m key msk' (bitpos i) nd = delete_descend m key msk (bitpos i) nd"
  by (simp add: delete_descend_walk)

text \<open>
  C10. The insert and the delete read the mask from the most significant bit down and
  stop at its first zero bit: with any mask they return the same result and leave the
  same tree as with the longest run of one bits at the top of that mask,
  \<open>contiguous_part msk\<close>. For \<open>0xA0000000\<close> that run is \<open>0x80000000\<close>.
\<close>

theorem mask_contiguous_part_equiv:
  "ngx_radix32tree_insert t key msk v = ngx_radix32tree_insert t key (contiguous_part msk) v \<and>
   ngx_radix32tree_delete t key msk = ngx_radix32tree_delete t key (contiguous_part msk)"
proof
  let ?c = "contiguous_part msk"
  have agree: "\<forall>k. k \<le> mask_len msk \<longrightarrow> kbit ?c k = kbit msk k"
    by (simp add: kbit_contiguous_part)
  show "ngx_radix32tree_insert t key msk v = ngx_radix32tree_insert t key ?c v"
  proof (cases "root t = 0")
    case True
    then show ?thesis by (simp add: ngx_radix32tree_insert_def)
  next
    case False
    have d: "insert_descend (nodes t) key ?c 0x80000000 (root t) (root t) =
             insert_descend (nodes t) key msk 0x80000000 (root t) (root t)"
      using insert_descend_mask_cong [of 0 msk ?c "nodes t" key "root t" "root t"] agree
      by (simp add: bitpos_0 mask_len_def)
    from insert_descend_walk [OF False, of msk 0 "nodes t" key] obtain j where
      j: "j \<le> mask_from msk 0"
         "insert_descend (nodes t) key msk (bitpos 0) (root t) (root t) =
            (bitpos (0 + j), walk (nodes t) (root t) (path_from key 0 j),
             if j = mask_from msk 0 then walk (nodes t) (root t) (path_from key 0 j) else 0)"
      by blast
    have "mask_from msk 0 = j + mask_from msk (0 + j)"
      using j(1) by (rule mask_from_split)
    then have "\<forall>k. j \<le> k \<and> k \<le> j + mask_from msk j \<longrightarrow> kbit ?c k = kbit msk k"
      using agree by (simp add: mask_len_def)
    then have e: "insert_extend t key ?c (bitpos j) nd = insert_extend t key msk (bitpos j) nd"
      for nd by (rule insert_extend_mask_cong)
    show ?thesis
      using j(2) d e by (simp add: ngx_radix32tree_insert_def bitpos_0)
  qed
  have "delete_descend (nodes t) key ?c 0x80000000 (root t) =
        delete_descend (nodes t) key msk 0x80000000 (root t)"
    using delete_descend_mask_cong [of ?c 0 msk "nodes t" key "root t"]
    by (simp add: bitpos_0 mask_len_contiguous_part [unfolded mask_len_def])
  then show "ngx_radix32tree_delete t key msk = ngx_radix32tree_delete t key ?c"
    by (simp add: ngx_radix32tree_delete_def)
qed

lemma contiguous_part_example: "contiguous_part 0xA0000000 = 0x80000000"
  by code_simp

theorem mask_contiguous_part_equiv_witness:
  "contiguous_part 0xA0000000 = 0x80000000 \<and>
   ngx_radix32tree_insert tree_empty 0x80000000 0xA0000000 42 =
     ngx_radix32tree_insert tree_empty 0x80000000 0x80000000 42 \<and>
   ngx_radix32tree_delete tree_one 0x80000000 0xA0000000 =
     ngx_radix32tree_delete tree_one 0x80000000 0x80000000"
  using mask_contiguous_part_equiv [of tree_empty "0x80000000" "0xA0000000" 42]
        mask_contiguous_part_equiv [of tree_one "0x80000000" "0xA0000000" 42]
  by (simp add: contiguous_part_example)


section \<open>Properties of the radix tree: allocation and shape\<close>

subsection \<open>Node allocation\<close>

lemma slots_empty: "sz < sizeof_ngx_radix_node_t \<Longrightarrow> slots a sz = []"
proof -
  assume "sz < sizeof_ngx_radix_node_t"
  then have "unat (sz div sizeof_ngx_radix_node_t) = 0"
    unfolding sizeof_ngx_radix_node_t_def by unat_arith
  then show ?thesis by (simp add: slots_def)
qed

lemma slots_carve:
  assumes "\<not> sz < sizeof_ngx_radix_node_t"
  shows "slots a sz = a # slots (a + sizeof_ngx_radix_node_t) (sz - sizeof_ngx_radix_node_t)"
proof -
  have "unat (sz div sizeof_ngx_radix_node_t) =
          Suc (unat ((sz - sizeof_ngx_radix_node_t) div sizeof_ngx_radix_node_t))"
    using assms unfolding sizeof_ngx_radix_node_t_def by unat_arith
  then show ?thesis
    by (simp add: slots_def map_upt_Suc comp_def algebra_simps del: upt_Suc)
qed

lemma future_slots_append: "future_slots (xs @ ys) = future_slots xs @ future_slots ys"
  by (simp add: future_slots_def)

lemma future_slots_Cons:
  "a \<noteq> 0 \<Longrightarrow> future_slots (a # xs) = slots a ngx_pagesize @ future_slots xs"
  by (simp add: future_slots_def)

lemma flist_null [simp]: "flist m 0 fl \<longleftrightarrow> fl = []"
  by (cases fl) auto

lemma flist_frame:
  "flist m p fl \<Longrightarrow> (\<forall>a \<in> set fl. right (m' a) = right (m a)) \<Longrightarrow> flist m' p fl"
  by (induction fl arbitrary: p) auto

lemma ngx_radix_alloc_avail:
  assumes fl: "flist (nodes t) (free t) fl"
    and d: "distinct (avail t fl)"
    and a: "ngx_radix_alloc t = (p, t1)"
  shows "nodes t1 = nodes t \<and> root t1 = root t \<and> os_suffix (pool t) (pool t1) \<and>
         (\<exists>fl1. flist (nodes t) (free t1) fl1 \<and> distinct (avail t1 fl1) \<and>
                set (avail t1 fl1) \<subseteq> set (avail t fl) \<and>
                (p \<noteq> 0 \<longrightarrow> p \<in> set (avail t fl) \<and> p \<notin> set (avail t1 fl1)))"
proof (cases "free t = 0")
  case False
  with fl obtain as where as: "fl = free t # as" "flist (nodes t) (right (nodes t (free t))) as"
    by (cases fl) auto
  from a False have r: "p = free t" "t1 = t\<lparr>free := right (nodes t (free t))\<rparr>"
    by (auto simp: ngx_radix_alloc_def)
  have e: "avail t fl = p # avail t1 as"
    using as r by (simp add: avail_def)
  have "distinct (avail t1 as) \<and> set (avail t1 as) \<subseteq> set (avail t fl) \<and>
        p \<in> set (avail t fl) \<and> p \<notin> set (avail t1 as)"
    using d unfolding e by auto
  moreover have "flist (nodes t) (free t1) as" using as r by simp
  ultimately show ?thesis using r by (intro conjI exI [of _ as]) simp_all
next
  case True
  with fl have fl0: "fl = []" by simp
  show ?thesis
  proof (cases "size_r t < sizeof_ngx_radix_node_t")
    case False
    from a True False have r: "p = start t"
      "t1 = t\<lparr>start := start t + sizeof_ngx_radix_node_t,
              size_r := size_r t - sizeof_ngx_radix_node_t\<rparr>"
      by (auto simp: ngx_radix_alloc_def)
    have e: "avail t fl = p # avail t1 []"
      using r fl0 slots_carve [OF False, of "start t"] by (simp add: avail_def)
    have "distinct (avail t1 []) \<and> set (avail t1 []) \<subseteq> set (avail t fl) \<and>
          p \<in> set (avail t fl) \<and> p \<notin> set (avail t1 [])"
      using d unfolding e by auto
    moreover have "flist (nodes t) (free t1) []" using True r by simp
    ultimately show ?thesis using r by (intro conjI exI [of _ "[]"]) simp_all
  next
    case small: True
    obtain s pool1 where pm: "ngx_pmemalign (pool t) ngx_pagesize ngx_pagesize = (s, pool1)"
      by (cases "ngx_pmemalign (pool t) ngx_pagesize ngx_pagesize")
    note sfx = ngx_pmemalign_os [OF pm]
    show ?thesis
    proof (cases "s = 0")
      case True
      from a \<open>free t = 0\<close> small pm True have r: "p = 0" "t1 = t\<lparr>start := 0, pool := pool1\<rparr>"
        by (auto simp: ngx_radix_alloc_def)
      from sfx(1) obtain ds where ds: "os (pool t) = ds @ os pool1"
        by (auto simp: os_suffix_def)
      have e: "avail t fl = future_slots ds @ avail t1 []"
        using r fl0 small ds by (simp add: avail_def slots_empty future_slots_append)
      have "distinct (avail t1 []) \<and> set (avail t1 []) \<subseteq> set (avail t fl)"
        using d unfolding e by auto
      moreover have "flist (nodes t) (free t1) []" using \<open>free t = 0\<close> r by simp
      moreover have "os_suffix (pool t) (pool t1)" using sfx(1) r by simp
      ultimately show ?thesis using r by (intro conjI exI [of _ "[]"]) simp_all
    next
      case False
      from a \<open>free t = 0\<close> small pm False have r: "p = s"
        "t1 = t\<lparr>start := s + sizeof_ngx_radix_node_t,
                size_r := ngx_pagesize - sizeof_ngx_radix_node_t, pool := pool1\<rparr>"
        by (auto simp: ngx_radix_alloc_def)
      from sfx(2) [OF False] obtain ds where ds: "os (pool t) = s # ds @ os pool1" by blast
      have pg: "\<not> ngx_pagesize < sizeof_ngx_radix_node_t"
        by (simp add: ngx_pagesize_def sizeof_ngx_radix_node_t_def)
      let ?S = "slots (s + sizeof_ngx_radix_node_t) (ngx_pagesize - sizeof_ngx_radix_node_t)"
      have e: "avail t fl = p # ?S @ future_slots ds @ future_slots (os pool1)"
        using r fl0 small ds False slots_carve [OF pg, of s]
        by (simp add: avail_def slots_empty future_slots_append future_slots_Cons)
      have e2: "avail t1 [] = ?S @ future_slots (os pool1)"
        using r by (simp add: avail_def)
      have "distinct (avail t1 []) \<and> set (avail t1 []) \<subseteq> set (avail t fl) \<and>
            p \<in> set (avail t fl) \<and> p \<notin> set (avail t1 [])"
        using d unfolding e e2 by auto
      moreover have "flist (nodes t) (free t1) []" using \<open>free t = 0\<close> r by simp
      moreover have "os_suffix (pool t) (pool t1)" using sfx(1) r by simp
      ultimately show ?thesis using r by (intro conjI exI [of _ "[]"]) simp_all
    qed
  qed
qed

subsection \<open>Hanging a fresh node below a node\<close>

lemma tree_inv_flD:
  assumes "tree_inv_fl t fl"
  shows "root t \<noteq> 0" and "parent (nodes t (root t)) = 0"
    and "\<forall>xs ys. walk (nodes t) (root t) xs \<noteq> 0 \<and>
              walk (nodes t) (root t) xs = walk (nodes t) (root t) ys \<longrightarrow> xs = ys"
    and "\<forall>xs. walk (nodes t) (root t) xs \<noteq> 0 \<longrightarrow> length xs \<le> 32"
    and "\<forall>xs c. walk (nodes t) (root t) (xs @ [c]) \<noteq> 0 \<longrightarrow>
              parent (nodes t (walk (nodes t) (root t) (xs @ [c]))) = walk (nodes t) (root t) xs"
    and "flist (nodes t) (free t) fl" and "distinct (avail t fl)" and "0 \<notin> set (avail t fl)"
    and "\<forall>xs. walk (nodes t) (root t) xs \<notin> set (avail t fl)"
  using assms unfolding tree_inv_fl_def by blast+

lemma tree_inv_flI:
  assumes "root t \<noteq> 0" and "parent (nodes t (root t)) = 0"
    and "\<forall>xs ys. walk (nodes t) (root t) xs \<noteq> 0 \<and>
              walk (nodes t) (root t) xs = walk (nodes t) (root t) ys \<longrightarrow> xs = ys"
    and "\<forall>xs. walk (nodes t) (root t) xs \<noteq> 0 \<longrightarrow> length xs \<le> 32"
    and "\<forall>xs c. walk (nodes t) (root t) (xs @ [c]) \<noteq> 0 \<longrightarrow>
              parent (nodes t (walk (nodes t) (root t) (xs @ [c]))) = walk (nodes t) (root t) xs"
    and "flist (nodes t) (free t) fl" and "distinct (avail t fl)" and "0 \<notin> set (avail t fl)"
    and "\<forall>xs. walk (nodes t) (root t) xs \<notin> set (avail t fl)"
  shows "tree_inv_fl t fl"
  unfolding tree_inv_fl_def using assms by (intro conjI)

lemma child_graft:
  "p \<noteq> node \<Longrightarrow>
   child (graft m node c p) q y =
     (if q = 0 then 0 else if q = node \<and> y = c then p else if q = p then 0 else child m q y)"
  by (auto simp: child_def graft_def Let_def)

lemma graft_other: "q \<noteq> p \<Longrightarrow> q \<noteq> node \<Longrightarrow> graft m node c p q = m q"
  by (simp add: graft_def Let_def)

lemma graft_new:
  "p \<noteq> node \<Longrightarrow>
   graft m node c p p = \<lparr>right = 0, left = 0, parent = node, value = NGX_RADIX_NO_VALUE\<rparr>"
  by (simp add: graft_def Let_def)

lemma graft_node:
  "p \<noteq> node \<Longrightarrow> parent (graft m node c p node) = parent (m node) \<and>
     value (graft m node c p node) = value (m node)"
  by (simp add: graft_def Let_def)

lemma graft_right:
  "q \<noteq> p \<Longrightarrow> q \<noteq> node \<Longrightarrow> right (graft m node c p q) = right (m q)"
  by (simp add: graft_other)

lemma walk_graft:
  assumes inj: "\<forall>xs ys. walk m r xs \<noteq> 0 \<and> walk m r xs = walk m r ys \<longrightarrow> xs = ys"
    and node: "walk m r pre = node" "node \<noteq> 0"
    and nochild: "child m node c = 0"
    and p: "p \<noteq> 0" "\<forall>xs. walk m r xs \<noteq> p"
  shows "walk (graft m node c p) r xs = (if xs = pre @ [c] then p else walk m r xs)"
proof (induction xs rule: rev_induct)
  case Nil
  then show ?case by simp
next
  case (snoc y xs)
  have pn: "p \<noteq> node" using p(2) node(1) by auto
  let ?m2 = "graft m node c p"
  show ?case
  proof (cases "xs = pre @ [c]")
    case True
    then have "walk ?m2 r xs = p" using snoc.IH by simp
    then have "walk ?m2 r (xs @ [y]) = 0"
      using p(1) pn by (simp add: walk_snoc child_graft)
    moreover have "walk m r (xs @ [y]) = 0"
      using True node nochild by (simp add: walk_append)
    ultimately show ?thesis using True by simp
  next
    case False
    then have ih: "walk ?m2 r xs = walk m r xs" using snoc.IH by simp
    let ?q = "walk m r xs"
    have qp: "?q \<noteq> p" using p(2) by simp
    show ?thesis
    proof (cases "?q = node")
      case True
      then have "xs = pre" using inj node by metis
      with True ih pn node qp show ?thesis
        by (simp add: walk_snoc child_graft)
    next
      case False
      then have "xs \<noteq> pre" using node(1) by auto
      with False ih pn qp show ?thesis
        by (simp add: walk_snoc child_graft)
    qed
  qed
qed

lemma avail_nodes [simp]: "avail (t\<lparr>nodes := m\<rparr>) fl = avail t fl"
  by (simp add: avail_def)

lemma tree_inv_graft:
  assumes inv: "tree_inv_fl t fl"
    and node: "walk (nodes t) (root t) pre = node" "node \<noteq> 0" "length pre < 32"
    and nochild: "child (nodes t) node c = 0"
    and p: "p \<noteq> 0" "\<forall>xs. walk (nodes t) (root t) xs \<noteq> p" "p \<notin> set (avail t fl)"
  shows "tree_inv_fl (t\<lparr>nodes := graft (nodes t) node c p\<rparr>) fl"
proof -
  let ?m = "nodes t" and ?r = "root t"
  let ?m2 = "graft ?m node c p"
  note rt = tree_inv_flD(1,2) [OF inv] and inj = tree_inv_flD(3) [OF inv]
    and depth = tree_inv_flD(4) [OF inv] and par = tree_inv_flD(5) [OF inv]
    and fl = tree_inv_flD(6,7,8) [OF inv] and unr = tree_inv_flD(9) [OF inv]
  note w = walk_graft [OF inj node(1,2) nochild p(1,2)]
  have pn: "p \<noteq> node" using p(2) node(1) by auto
  have rp: "?r \<noteq> p" using p(2) [rule_format, of "[]"] by simp
  have nw: "walk ?m ?r (pre @ [c]) = 0"
    using node nochild by (simp add: walk_snoc)
  have 1: "parent (?m2 ?r) = 0"
  proof (cases "?r = node")
    case True
    with rt pn show ?thesis by (simp add: graft_node)
  next
    case False
    with rp rt show ?thesis by (simp add: graft_other)
  qed
  have 2: "\<forall>xs ys. walk ?m2 ?r xs \<noteq> 0 \<and> walk ?m2 ?r xs = walk ?m2 ?r ys \<longrightarrow> xs = ys"
    using inj p(2) by (auto simp: w)
  have 3: "\<forall>xs. walk ?m2 ?r xs \<noteq> 0 \<longrightarrow> length xs \<le> 32"
    using depth node(3) by (auto simp: w)
  have 4: "\<forall>xs y. walk ?m2 ?r (xs @ [y]) \<noteq> 0 \<longrightarrow>
              parent (?m2 (walk ?m2 ?r (xs @ [y]))) = walk ?m2 ?r xs"
  proof (intro allI impI)
    fix xs y
    assume nz: "walk ?m2 ?r (xs @ [y]) \<noteq> 0"
    show "parent (?m2 (walk ?m2 ?r (xs @ [y]))) = walk ?m2 ?r xs"
    proof (cases "xs @ [y] = pre @ [c]")
      case True
      then have "xs = pre" by simp
      with True pn node show ?thesis by (simp add: w graft_new)
    next
      case False
      with nz have old: "walk ?m ?r (xs @ [y]) \<noteq> 0" by (auto simp: w)
      have "xs \<noteq> pre @ [c]"
      proof
        assume "xs = pre @ [c]"
        then have "walk ?m ?r (xs @ [y]) = 0" using nw by (simp add: walk_append)
        with old show False by simp
      qed
      moreover have "parent (?m2 (walk ?m ?r (xs @ [y]))) = parent (?m (walk ?m ?r (xs @ [y])))"
        using p(2) pn by (cases "walk ?m ?r (xs @ [y]) = node") (simp_all add: graft_node graft_other)
      ultimately show ?thesis using False old par by (auto simp: w)
    qed
  qed
  have 5: "flist ?m2 (free t) fl"
  proof (rule flist_frame [OF fl(1)], intro ballI)
    fix a assume a: "a \<in> set fl"
    then have "a \<in> set (avail t fl)" by (simp add: avail_def)
    with p(3) unr node(1) have "a \<noteq> p" "a \<noteq> node" by auto
    then show "right (?m2 a) = right (?m a)" by (simp add: graft_other)
  qed
  have 6: "\<forall>xs. walk ?m2 ?r xs \<notin> set (avail t fl)"
    using unr p(3) by (auto simp: w)
  show ?thesis
    by (rule tree_inv_flI) (use rt(1) 1 2 3 4 5 6 fl(2,3) in simp_all)
qed

lemma lookup_graft:
  assumes inv: "tree_inv_fl t fl"
    and node: "walk (nodes t) (root t) pre = node" "node \<noteq> 0"
    and nochild: "child (nodes t) node c = 0"
    and p: "p \<noteq> 0" "\<forall>xs. walk (nodes t) (root t) xs \<noteq> p"
  shows "lookup (t\<lparr>nodes := graft (nodes t) node c p\<rparr>) xs =
           (if xs = pre @ [c] then Some NGX_RADIX_NO_VALUE else lookup t xs)"
proof -
  let ?m = "nodes t" and ?r = "root t"
  note inj = tree_inv_flD(3) [OF inv]
  note w = walk_graft [OF inj node(1,2) nochild p(1,2)]
  have pn: "p \<noteq> node" using p(2) node(1) by auto
  have "value (graft ?m node c p (walk ?m ?r xs)) = value (?m (walk ?m ?r xs))"
    using p(2) pn by (cases "walk ?m ?r xs = node") (simp_all add: graft_node graft_other)
  then show ?thesis
    using p(1) pn by (simp add: lookup_def w graft_new)
qed

subsection \<open>Allocation keeps the shape\<close>

lemma ngx_radix_alloc_left:
  assumes a: "ngx_radix_alloc t = (p, t1)" and z: "0 \<notin> set (avail t fl)"
  shows "nodes_left t \<le> Suc (nodes_left t1)" and "0 < nodes_left t \<Longrightarrow> p \<noteq> 0"
proof -
  have both: "nodes_left t \<le> Suc (nodes_left t1) \<and> (0 < nodes_left t \<longrightarrow> p \<noteq> 0)"
  proof (cases "free t = 0")
    case False
    with a have "p = free t" "t1 = t\<lparr>free := right (nodes t (free t))\<rparr>"
      by (auto simp: ngx_radix_alloc_def)
    with False show ?thesis by (simp add: nodes_left_def)
  next
    case True
    show ?thesis
    proof (cases "size_r t < sizeof_ngx_radix_node_t")
      case False
      from a True False have r: "p = start t"
        "t1 = t\<lparr>start := start t + sizeof_ngx_radix_node_t,
                size_r := size_r t - sizeof_ngx_radix_node_t\<rparr>"
        by (auto simp: ngx_radix_alloc_def)
      have "start t \<in> set (avail t fl)"
        using slots_carve [OF False, of "start t"] by (simp add: avail_def)
      with z have "p \<noteq> 0" using r by auto
      moreover have "unat (size_r t div sizeof_ngx_radix_node_t) =
          Suc (unat ((size_r t - sizeof_ngx_radix_node_t) div sizeof_ngx_radix_node_t))"
        using False unfolding sizeof_ngx_radix_node_t_def by unat_arith
      ultimately show ?thesis using r by (simp add: nodes_left_def)
    next
      case small: True
      then have s0: "unat (size_r t div sizeof_ngx_radix_node_t) = 0"
        unfolding sizeof_ngx_radix_node_t_def by unat_arith
      obtain s pool1 where pm: "ngx_pmemalign (pool t) ngx_pagesize ngx_pagesize = (s, pool1)"
        by (cases "ngx_pmemalign (pool t) ngx_pagesize ngx_pagesize")
      show ?thesis
      proof (cases "s = 0")
        case True
        then have "pages_left (pool t) = 0" using pm by (subst pages_left.simps) simp
        with s0 show ?thesis by (simp add: nodes_left_def)
      next
        case False
        from a \<open>free t = 0\<close> small pm False have r: "p = s"
          "t1 = t\<lparr>start := s + sizeof_ngx_radix_node_t,
                  size_r := ngx_pagesize - sizeof_ngx_radix_node_t, pool := pool1\<rparr>"
          by (auto simp: ngx_radix_alloc_def)
        have pl: "pages_left (pool t) = Suc (pages_left pool1)"
          using pm False by (subst pages_left.simps) simp
        have "unat (ngx_pagesize div sizeof_ngx_radix_node_t) =
              Suc (unat ((ngx_pagesize - sizeof_ngx_radix_node_t) div sizeof_ngx_radix_node_t))"
          by (simp add: ngx_pagesize_def sizeof_ngx_radix_node_t_def)
        with r pl s0 False show ?thesis by (simp add: nodes_left_def)
      qed
    qed
  qed
  from both show "nodes_left t \<le> Suc (nodes_left t1)" by simp
  from both show "0 < nodes_left t \<Longrightarrow> p \<noteq> 0" by simp
qed

lemma nodes_left_nodes [simp]: "nodes_left (t\<lparr>nodes := m\<rparr>) = nodes_left t"
  by (simp add: nodes_left_def)

text \<open>After an allocation the invariant still holds and the node handed out is fresh.\<close>

lemma tree_inv_alloc:
  assumes inv: "tree_inv_fl t fl" and a: "ngx_radix_alloc t = (p, t1)"
  shows "nodes t1 = nodes t \<and> root t1 = root t \<and> os_suffix (pool t) (pool t1) \<and>
         (\<exists>fl1. tree_inv_fl t1 fl1 \<and>
            (p \<noteq> 0 \<longrightarrow> p \<notin> set (avail t1 fl1) \<and> (\<forall>xs. walk (nodes t) (root t) xs \<noteq> p)))"
proof -
  note d = tree_inv_flD [OF inv]
  from ngx_radix_alloc_avail [OF d(6,7) a] obtain fl1 where
    s: "nodes t1 = nodes t" "root t1 = root t" "os_suffix (pool t) (pool t1)"
    and f: "flist (nodes t) (free t1) fl1" "distinct (avail t1 fl1)"
       "set (avail t1 fl1) \<subseteq> set (avail t fl)"
       "p \<noteq> 0 \<longrightarrow> p \<in> set (avail t fl) \<and> p \<notin> set (avail t1 fl1)"
    by blast
  have "tree_inv_fl t1 fl1"
    by (rule tree_inv_flI) (use d s f in auto)
  moreover have "p \<noteq> 0 \<longrightarrow> (\<forall>xs. walk (nodes t) (root t) xs \<noteq> p)"
    using f(4) d(9) by auto
  ultimately show ?thesis using s f(4) by blast
qed

text \<open>Storing a value changes no pointer.\<close>

lemma child_set_value [simp]:
  "child (m(q := (m q)\<lparr>value := v\<rparr>)) = child m"
  by (auto simp: child_def fun_eq_iff)

lemma walk_set_value [simp]:
  "walk (m(q := (m q)\<lparr>value := v\<rparr>)) p xs = walk m p xs"
  by (induction xs arbitrary: p) simp_all

lemma tree_inv_set_value:
  assumes "tree_inv_fl t fl"
  shows "tree_inv_fl (t\<lparr>nodes := (nodes t)(q := (nodes t q)\<lparr>value := v\<rparr>)\<rparr>) fl"
proof -
  note d = tree_inv_flD [OF assms]
  have "flist ((nodes t)(q := (nodes t q)\<lparr>value := v\<rparr>)) (free t) fl"
    by (rule flist_frame [OF d(6)]) simp
  then show ?thesis
    by (intro tree_inv_flI) (use d in \<open>auto\<close>)
qed

lemma lookup_set_value:
  assumes "tree_inv_fl t fl" and "walk (nodes t) (root t) path = q" and "q \<noteq> 0"
  shows "lookup (t\<lparr>nodes := (nodes t)(q := (nodes t q)\<lparr>value := v\<rparr>)\<rparr>) xs =
           (if xs = path then Some v else lookup t xs)"
proof -
  note inj = tree_inv_flD(3) [OF assms(1)]
  have "walk (nodes t) (root t) xs = q \<longleftrightarrow> xs = path"
    using inj assms(2,3) by metis
  then show ?thesis using assms(2,3) by (auto simp: lookup_def)
qed

section \<open>Properties of the radix tree: the effect of an insert\<close>

lemma lookup_same:
  "nodes t1 = nodes t \<Longrightarrow> root t1 = root t \<Longrightarrow> lookup t1 xs = lookup t xs"
  by (simp add: lookup_def)

lemma insert_extend_step:
  assumes "kbit msk j" and "ngx_radix_alloc t = (p, t1)"
  shows "insert_extend t key msk (bitpos j) node =
           (if p = 0 then (None, t1)
            else insert_extend (t1\<lparr>nodes := graft (nodes t1) node (kbit key j) p\<rparr>)
                   key msk (bitpos (Suc j)) p)"
  using assms
  by (subst insert_extend.simps)
     (simp add: bitpos_and and_bitpos bitpos_Suc graft_def Let_def)

lemma insert_extend_stop:
  "\<not> kbit msk j \<Longrightarrow> insert_extend t key msk (bitpos j) node = (Some node, t)"
  by (subst insert_extend.simps) (simp add: bitpos_and)

lemma insert_extend_spec:
  assumes "tree_inv_fl t fl"
    and "walk (nodes t) (root t) (key_bits key j) = node" and "node \<noteq> 0"
    and "kbit msk j \<longrightarrow> child (nodes t) node (kbit key j) = 0"
  shows "\<exists>res t' fl' e.
           insert_extend t key msk (bitpos j) node = (res, t') \<and>
           tree_inv_fl t' fl' \<and> root t' = root t \<and> os_suffix (pool t) (pool t') \<and>
           j \<le> e \<and> e \<le> j + mask_from msk j \<and>
           (\<forall>xs. lookup t' xs =
               (if \<exists>k. j < k \<and> k \<le> e \<and> xs = key_bits key k then Some NGX_RADIX_NO_VALUE
                else lookup t xs)) \<and>
           nodes_left t \<le> nodes_left t' + (e - j) \<and>
           (case res of
              None \<Rightarrow> e < j + mask_from msk j
            | Some nd \<Rightarrow> e = j + mask_from msk j \<and>
                walk (nodes t') (root t') (key_bits key e) = nd \<and> nd \<noteq> 0) \<and>
           (mask_from msk j \<le> nodes_left t \<longrightarrow> res \<noteq> None)"
  using assms
proof (induction msk j arbitrary: t fl node rule: mask_from.induct)
  case (1 msk j)
  note inv = "1.prems"(1) and node = "1.prems"(2,3) and nochild = "1.prems"(4)
  show ?case
  proof (cases "kbit msk j")
    case False
    have "insert_extend t key msk (bitpos j) node = (Some node, t)"
      using False by (rule insert_extend_stop)
    with False inv node show ?thesis
      by (intro exI [of _ "Some node"] exI [of _ t] exI [of _ fl] exI [of _ j])
         (auto simp: mask_from_0)
  next
    case True
    then have j32: "j < 32" by (simp add: kbit_def)
    have mf: "mask_from msk j = Suc (mask_from msk (Suc j))"
      using True by (rule mask_from_Suc)
    obtain p t1 where a: "ngx_radix_alloc t = (p, t1)" by (cases "ngx_radix_alloc t")
    from tree_inv_alloc [OF inv a] obtain fl1 where
      s: "nodes t1 = nodes t" "root t1 = root t" "os_suffix (pool t) (pool t1)"
      and inv1: "tree_inv_fl t1 fl1"
      and fresh: "p \<noteq> 0 \<longrightarrow> p \<notin> set (avail t1 fl1) \<and> (\<forall>xs. walk (nodes t) (root t) xs \<noteq> p)"
      by blast
    note left = ngx_radix_alloc_left [OF a tree_inv_flD(8) [OF inv]]
    note step = insert_extend_step [OF True a, of key node]
    show ?thesis
    proof (cases "p = 0")
      case True
      then have "nodes_left t = 0" using left(2) by auto
      with True step s inv1 mf show ?thesis
        by (intro exI [of _ None] exI [of _ t1] exI [of _ fl1] exI [of _ j])
           (auto simp: lookup_same [OF s(1,2)])
    next
      case False
      let ?c = "kbit key j"
      let ?t2 = "t1\<lparr>nodes := graft (nodes t1) node ?c p\<rparr>"
      have node1: "walk (nodes t1) (root t1) (key_bits key j) = node"
        using node(1) s by simp
      have nochild1: "child (nodes t1) node ?c = 0"
        using nochild True s by simp
      have unr1: "\<forall>xs. walk (nodes t1) (root t1) xs \<noteq> p"
        using fresh False s by simp
      have av1: "p \<notin> set (avail t1 fl1)" using fresh False by simp
      have inv2: "tree_inv_fl ?t2 fl1"
        by (rule tree_inv_graft [OF inv1 node1 node(2) _ nochild1 False unr1 av1])
           (simp add: j32)
      note w = walk_graft [OF tree_inv_flD(3) [OF inv1] node1 node(2) nochild1 False unr1]
      have pn: "p \<noteq> node" using unr1 node1 by auto
      have wp: "walk (nodes ?t2) (root ?t2) (key_bits key (Suc j)) = p"
        by (simp add: w key_bits_Suc)
      have cp: "kbit msk (Suc j) \<longrightarrow> child (nodes ?t2) p (kbit key (Suc j)) = 0"
        using False pn by (simp add: child_graft)
      from "1.IH" [OF True inv2 wp False cp] obtain res t' fl' e where
        r: "insert_extend ?t2 key msk (bitpos (Suc j)) p = (res, t')"
          "tree_inv_fl t' fl'" "root t' = root ?t2" "os_suffix (pool ?t2) (pool t')"
          "Suc j \<le> e" "e \<le> Suc j + mask_from msk (Suc j)"
          "\<forall>xs. lookup t' xs =
               (if \<exists>k. Suc j < k \<and> k \<le> e \<and> xs = key_bits key k then Some NGX_RADIX_NO_VALUE
                else lookup ?t2 xs)"
          "nodes_left ?t2 \<le> nodes_left t' + (e - Suc j)"
          "case res of
              None \<Rightarrow> e < Suc j + mask_from msk (Suc j)
            | Some nd \<Rightarrow> e = Suc j + mask_from msk (Suc j) \<and>
                walk (nodes t') (root t') (key_bits key e) = nd \<and> nd \<noteq> 0"
          "mask_from msk (Suc j) \<le> nodes_left ?t2 \<longrightarrow> res \<noteq> None"
        by blast
      have l2: "lookup ?t2 xs =
                  (if xs = key_bits key (Suc j) then Some NGX_RADIX_NO_VALUE else lookup t xs)" for xs
        using lookup_graft [OF inv1 node1 node(2) nochild1 False unr1, of xs]
        by (simp add: key_bits_Suc lookup_same [OF s(1,2)])
      have lk: "lookup t' xs =
               (if \<exists>k. j < k \<and> k \<le> e \<and> xs = key_bits key k then Some NGX_RADIX_NO_VALUE
                else lookup t xs)" for xs
      proof (cases "\<exists>k. Suc j < k \<and> k \<le> e \<and> xs = key_bits key k")
        case True
        then obtain k where "Suc j < k" "k \<le> e" "xs = key_bits key k" by blast
        then have "j < k \<and> k \<le> e \<and> xs = key_bits key k" by simp
        then have C: "\<exists>k. j < k \<and> k \<le> e \<and> xs = key_bits key k" ..
        have "lookup t' xs = Some NGX_RADIX_NO_VALUE" using True r(7) by auto
        with C show ?thesis by (simp only: if_True)
      next
        case False
        show ?thesis
        proof (cases "xs = key_bits key (Suc j)")
          case True
          then have C: "\<exists>k. j < k \<and> k \<le> e \<and> xs = key_bits key k" using r(5) by auto
          have A: "lookup t' xs = lookup ?t2 xs" using False r(7) by auto
          have B: "lookup ?t2 xs = Some NGX_RADIX_NO_VALUE" using True l2 by simp
          from C show ?thesis by (simp only: A B if_True)
        next
          case ne: False
          have A: "lookup t' xs = lookup ?t2 xs" using False r(7) by auto
          have B: "lookup ?t2 xs = lookup t xs" using ne l2 by simp
          have "\<not> (\<exists>k. j < k \<and> k \<le> e \<and> xs = key_bits key k)"
          proof
            assume "\<exists>k. j < k \<and> k \<le> e \<and> xs = key_bits key k"
            then obtain k where k: "j < k" "k \<le> e" "xs = key_bits key k" by blast
            with ne have "k \<noteq> Suc j" by auto
            with k have "Suc j < k" by simp
            with k False show False by blast
          qed
          then show ?thesis by (simp only: A B if_False)
        qed
      qed
      have "insert_extend t key msk (bitpos j) node = (res, t')"
        using step False r(1) by simp
      moreover have "os_suffix (pool t) (pool t')"
        using s(3) r(4) by (auto intro: os_suffix_trans)
      moreover have "nodes_left t \<le> nodes_left t' + (e - j)"
        using left(1) r(8) r(5) by simp
      moreover have "case res of
              None \<Rightarrow> e < j + mask_from msk j
            | Some nd \<Rightarrow> e = j + mask_from msk j \<and>
                walk (nodes t') (root t') (key_bits key e) = nd \<and> nd \<noteq> 0"
        using r(9) mf by (cases res) simp_all
      moreover have "mask_from msk j \<le> nodes_left t \<longrightarrow> res \<noteq> None"
        using r(10) left(1) mf by simp
      ultimately show ?thesis
        using r(2,3,5,6) s(2) mf lk
        by (intro exI [of _ res] exI [of _ t'] exI [of _ fl'] exI [of _ e]) simp
    qed
  qed
qed

lemma key_bits_add: "key_bits key (j + k) = key_bits key j @ path_from key j k"
  using path_from_add [of key 0 j k] by (simp add: path_from_key_bits)

lemma key_bits_take: "k \<le> n \<Longrightarrow> take k (key_bits key n) = key_bits key k"
  by (simp add: key_bits_def take_map)

lemma walk_key_bits_prefix:
  assumes "walk m r (key_bits key n) \<noteq> 0" and "k \<le> n"
  shows "walk m r (key_bits key k) \<noteq> 0"
proof
  assume z: "walk m r (key_bits key k) = 0"
  from assms(2) obtain d where "n = k + d" using le_Suc_ex by blast
  then have "walk m r (key_bits key n) = 0"
    using z by (simp add: key_bits_add walk_append)
  with assms(1) show False by simp
qed

lemma lookup_None_iff: "lookup t xs = None \<longleftrightarrow> walk (nodes t) (root t) xs = 0"
  by (simp add: lookup_def)

lemma key_bits_inj_len: "key_bits key k = key_bits key k' \<Longrightarrow> k = k'"
  by (metis length_key_bits)

lemma ngx_radix32tree_insert_spec:
  fixes t :: ngx_radix_tree_t and key msk :: uint32_t
  assumes inv: "tree_inv_fl t fl"
  shows "\<exists>rc t' fl'.
     ngx_radix32tree_insert t key msk v = Inr (rc, t') \<and>
     tree_inv_fl t' fl' \<and> root t' = root t \<and> os_suffix (pool t) (pool t') \<and>
     (rc = NGX_BUSY \<longrightarrow> t' = t \<and>
        (\<exists>w. lookup t (key_bits key (mask_len msk)) = Some w \<and> w \<noteq> NGX_RADIX_NO_VALUE)) \<and>
     (rc = NGX_OK \<longrightarrow>
        (lookup t (key_bits key (mask_len msk)) = None \<or>
         lookup t (key_bits key (mask_len msk)) = Some NGX_RADIX_NO_VALUE) \<and>
        (\<forall>xs. lookup t' xs =
           (if xs = key_bits key (mask_len msk) then Some v
            else if (\<exists>k < mask_len msk. xs = key_bits key k) \<and> lookup t xs = None
                 then Some NGX_RADIX_NO_VALUE
            else lookup t xs))) \<and>
     (rc = NGX_ERROR \<longrightarrow>
        (\<forall>xs. lookup t' xs = lookup t xs \<or>
              (lookup t xs = None \<and> lookup t' xs = Some NGX_RADIX_NO_VALUE))) \<and>
     rc \<noteq> NGX_DECLINED \<and>
     (\<forall>j \<le> mask_len msk. lookup t (key_bits key j) \<noteq> None \<longrightarrow>
        nodes_left t \<le> nodes_left t' + (mask_len msk - j) \<and>
        (mask_len msk - j \<le> nodes_left t \<longrightarrow> rc \<noteq> NGX_ERROR))"
proof -
  let ?m = "nodes t" and ?r = "root t" and ?n = "mask_len msk"
  let ?path = "key_bits key ?n"
  let ?p = "walk ?m ?r ?path"
  note d = tree_inv_flD [OF inv]
  note ds = insert_descend_root [OF d(1), of key msk]
  show ?thesis
  proof (cases "?p = 0")
    case False
    then have desc: "insert_descend ?m key msk 0x80000000 ?r ?r = (bitpos ?n, ?p, ?p)"
      using ds by simp
    have lk: "lookup t ?path = Some (value (?m ?p))" using False by (simp add: lookup_def)
    have pre: "lookup t (key_bits key k) \<noteq> None" if "k \<le> ?n" for k
      using walk_key_bits_prefix [OF False that] by (simp add: lookup_None_iff)
    show ?thesis
    proof (cases "value (?m ?p) = NGX_RADIX_NO_VALUE")
      case busy: False
      have "ngx_radix32tree_insert t key msk v = Inr (NGX_BUSY, t)"
        using d(1) desc False busy by (simp add: ngx_radix32tree_insert_def)
      with inv lk busy show ?thesis
        by (intro exI [of _ NGX_BUSY] exI [of _ t] exI [of _ fl]) auto
    next
      case True
      let ?t' = "t\<lparr>nodes := ?m(?p := (?m ?p)\<lparr>value := v\<rparr>)\<rparr>"
      have r: "ngx_radix32tree_insert t key msk v = Inr (NGX_OK, ?t')"
        using d(1) desc False True by (simp add: ngx_radix32tree_insert_def)
      have inv': "tree_inv_fl ?t' fl" using inv by (rule tree_inv_set_value)
      have l': "lookup ?t' xs =
           (if xs = ?path then Some v
            else if (\<exists>k < ?n. xs = key_bits key k) \<and> lookup t xs = None
                 then Some NGX_RADIX_NO_VALUE
            else lookup t xs)" for xs
      proof -
        have "\<not> ((\<exists>k < ?n. xs = key_bits key k) \<and> lookup t xs = None)"
          using pre by auto
        with lookup_set_value [OF inv refl False, of v xs] show ?thesis
          by (simp only: if_False)
      qed
      have nl: "\<forall>j \<le> ?n. lookup t (key_bits key j) \<noteq> None \<longrightarrow>
        nodes_left t \<le> nodes_left ?t' + (?n - j) \<and>
        (?n - j \<le> nodes_left t \<longrightarrow> NGX_OK \<noteq> NGX_ERROR)" by auto
      show ?thesis
        using r inv' l' lk True nl
        by (intro exI [of _ NGX_OK] exI [of _ ?t'] exI [of _ fl]) simp
    qed
  next
    case True
    with ds obtain j where j: "j < ?n" "walk ?m ?r (key_bits key j) \<noteq> 0"
      "child ?m (walk ?m ?r (key_bits key j)) (kbit key j) = 0"
      "insert_descend ?m key msk 0x80000000 ?r ?r = (bitpos j, walk ?m ?r (key_bits key j), 0)"
      by blast
    let ?nd = "walk ?m ?r (key_bits key j)"
    have split: "?n = j + mask_from msk j"
      using mask_from_split [of j msk 0] j(1) by (simp add: mask_len_def)
    have missing: "walk ?m ?r (key_bits key k) = 0" if "j < k" for k
    proof -
      from that obtain d where "k = Suc j + d" using less_imp_Suc_add by blast
      moreover have "walk ?m ?r (key_bits key (Suc j)) = 0"
        using j(3) by (simp add: key_bits_Suc walk_snoc)
      ultimately show ?thesis by (simp add: key_bits_add walk_append del: add_Suc)
    qed
    have present: "walk ?m ?r (key_bits key k) \<noteq> 0" if "k \<le> j" for k
      using walk_key_bits_prefix [OF j(2) that] .
    from insert_extend_spec [OF inv refl j(2), of msk] j(3)
    obtain res t' fl' e where
      r: "insert_extend t key msk (bitpos j) ?nd = (res, t')"
        "tree_inv_fl t' fl'" "root t' = root t" "os_suffix (pool t) (pool t')"
        "j \<le> e" "e \<le> j + mask_from msk j"
        "\<forall>xs. lookup t' xs =
               (if \<exists>k. j < k \<and> k \<le> e \<and> xs = key_bits key k then Some NGX_RADIX_NO_VALUE
                else lookup t xs)"
        "nodes_left t \<le> nodes_left t' + (e - j)"
        "case res of
              None \<Rightarrow> e < j + mask_from msk j
            | Some nd \<Rightarrow> e = j + mask_from msk j \<and>
                walk (nodes t') (root t') (key_bits key e) = nd \<and> nd \<noteq> 0"
        "mask_from msk j \<le> nodes_left t \<longrightarrow> res \<noteq> None"
      by blast
    have bound: "nodes_left t \<le> nodes_left t' + (?n - j') \<and>
                 (?n - j' \<le> nodes_left t \<longrightarrow> res \<noteq> None)"
      if "j' \<le> ?n" "lookup t (key_bits key j') \<noteq> None" for j'
    proof -
      have "j' \<le> j" using that(2) missing [of j'] by (auto simp: lookup_None_iff intro: leI)
      then show ?thesis using r(8,6,10) split by auto
    qed
    have none_path: "lookup t ?path = None" using True by (simp add: lookup_None_iff)
    show ?thesis
    proof (cases res)
      case None
      have "ngx_radix32tree_insert t key msk v = Inr (NGX_ERROR, t')"
        using d(1) j(4) r(1) None by (simp add: ngx_radix32tree_insert_def)
      moreover have "\<forall>xs. lookup t' xs = lookup t xs \<or>
              (lookup t xs = None \<and> lookup t' xs = Some NGX_RADIX_NO_VALUE)"
      proof
        fix xs
        show "lookup t' xs = lookup t xs \<or>
              (lookup t xs = None \<and> lookup t' xs = Some NGX_RADIX_NO_VALUE)"
        proof (cases "\<exists>k. j < k \<and> k \<le> e \<and> xs = key_bits key k")
          case True
          then obtain k where "j < k" "xs = key_bits key k" by blast
          then have "lookup t xs = None" using missing by (simp add: lookup_None_iff)
          moreover have "lookup t' xs = Some NGX_RADIX_NO_VALUE" using True r(7) by auto
          ultimately show ?thesis by simp
        next
          case False
          then have "lookup t' xs = lookup t xs" using r(7) by auto
          then show ?thesis by simp
        qed
      qed
      moreover have "\<forall>j' \<le> ?n. lookup t (key_bits key j') \<noteq> None \<longrightarrow>
        nodes_left t \<le> nodes_left t' + (?n - j') \<and>
        (?n - j' \<le> nodes_left t \<longrightarrow> NGX_ERROR \<noteq> NGX_ERROR)"
        using bound None by auto
      ultimately show ?thesis
        using r(2,3,4)
        by (intro exI [of _ NGX_ERROR] exI [of _ t'] exI [of _ fl']) simp
    next
      case (Some nd)
      with r(9) have e: "e = ?n" and nd: "walk (nodes t') (root t') ?path = nd" "nd \<noteq> 0"
        using split by auto
      let ?t'' = "t'\<lparr>nodes := (nodes t')(nd := (nodes t' nd)\<lparr>value := v\<rparr>)\<rparr>"
      have res: "ngx_radix32tree_insert t key msk v = Inr (NGX_OK, ?t'')"
        using d(1) j(4) r(1) Some by (simp add: ngx_radix32tree_insert_def)
      have inv'': "tree_inv_fl ?t'' fl'" using r(2) by (rule tree_inv_set_value)
      have l'': "lookup ?t'' xs =
           (if xs = ?path then Some v
            else if (\<exists>k < ?n. xs = key_bits key k) \<and> lookup t xs = None
                 then Some NGX_RADIX_NO_VALUE
            else lookup t xs)" for xs
      proof (cases "xs = ?path")
        case True
        then show ?thesis using lookup_set_value [OF r(2) nd, of v xs] by simp
      next
        case False
        then have a: "lookup ?t'' xs = lookup t' xs"
          using lookup_set_value [OF r(2) nd, of v xs] by simp
        have "(\<exists>k. j < k \<and> k \<le> e \<and> xs = key_bits key k) \<longleftrightarrow>
              ((\<exists>k < ?n. xs = key_bits key k) \<and> lookup t xs = None)"
        proof
          assume "\<exists>k. j < k \<and> k \<le> e \<and> xs = key_bits key k"
          then obtain k where k: "j < k" "k \<le> e" "xs = key_bits key k" by blast
          with False e have "k < ?n" by (cases "k = ?n") auto
          moreover have "lookup t xs = None" using k missing by (simp add: lookup_None_iff)
          ultimately show "(\<exists>k < ?n. xs = key_bits key k) \<and> lookup t xs = None"
            using k(3) by blast
        next
          assume "(\<exists>k < ?n. xs = key_bits key k) \<and> lookup t xs = None"
          then obtain k where k: "k < ?n" "xs = key_bits key k" "lookup t xs = None" by blast
          have "j < k" using k(2,3) present [of k] by (auto simp: lookup_None_iff intro: leI)
          with k e show "\<exists>k. j < k \<and> k \<le> e \<and> xs = key_bits key k" by auto
        qed
        with a False r(7) show ?thesis by auto
      qed
      have "\<forall>j' \<le> ?n. lookup t (key_bits key j') \<noteq> None \<longrightarrow>
        nodes_left t \<le> nodes_left ?t'' + (?n - j') \<and>
        (?n - j' \<le> nodes_left t \<longrightarrow> NGX_OK \<noteq> NGX_ERROR)"
        using bound by simp
      then show ?thesis
        using res inv'' l'' r(3,4) none_path
        by (intro exI [of _ NGX_OK] exI [of _ ?t''] exI [of _ fl']) simp
    qed
  qed
qed

section \<open>Properties of the radix tree: preallocation\<close>

subsection \<open>Keys of a level\<close>

lemma bits_val_Nil [simp]: "bits_val [] = 0"
  by (simp add: bits_val_def)

lemma bits_val_snoc [simp]: "bits_val (xs @ [b]) = 2 * bits_val xs + of_bool b"
  by (simp add: bits_val_def)

lemma bits_val_less: "bits_val xs < 2 ^ length xs"
  by (induction xs rule: rev_induct) (auto simp: algebra_simps)

lemma bits_val_inj:
  "length xs = length ys \<Longrightarrow> bits_val xs = bits_val ys \<Longrightarrow> xs = ys"
proof (induction xs arbitrary: ys rule: rev_induct)
  case Nil
  then show ?case by simp
next
  case (snoc b xs)
  then obtain c zs where ys: "ys = zs @ [c]"
    by (metis length_0_conv rev_exhaust snoc_eq_iff_butlast length_append_singleton nat.distinct(1))
  with snoc.prems have l: "length xs = length zs"
    and v: "2 * bits_val xs + of_bool b = 2 * bits_val zs + (of_bool c :: nat)"
    by simp_all
  from v have "b = c" by (cases b; cases c) (simp_all, presburger+)
  with v have "bits_val xs = bits_val zs" by simp
  with snoc.IH [OF l] \<open>b = c\<close> ys show ?case by simp
qed

lemma bits_val_nat_bits:
  "bits_val (map (\<lambda>k. bit i (l - k)) [0 ..< Suc l]) = i mod 2 ^ Suc l"
proof (induction l arbitrary: i)
  case 0
  show ?case by (simp add: bit_0 mod_2_eq_odd bits_val_def)
next
  case (Suc l)
  have "map (\<lambda>k. bit i (Suc l - k)) [0 ..< Suc (Suc l)] =
          map (\<lambda>k. bit (i div 2) (l - k)) [0 ..< Suc l] @ [bit i 0]"
    by (auto simp: bit_Suc Suc_diff_le simp del: upt_Suc simp flip: bit_Suc)
       (simp add: bit_Suc Suc_diff_le)
  then have "bits_val (map (\<lambda>k. bit i (Suc l - k)) [0 ..< Suc (Suc l)]) =
               2 * (i div 2 mod 2 ^ Suc l) + of_bool (odd i)"
    using Suc.IH [of "i div 2"] by (simp add: bit_0 del: upt_Suc)
  also have "\<dots> = i mod 2 ^ Suc (Suc l)"
  proof -
    have "i mod (2 * 2 ^ Suc l) = 2 * (i div 2 mod 2 ^ Suc l) + i mod 2"
      by (rule mod_mult2_eq)
    moreover have "(of_bool (odd i) :: nat) = i mod 2" by (simp add: mod_2_eq_odd)
    moreover have "(2::nat) ^ Suc (Suc l) = 2 * 2 ^ Suc l" by (rule power_Suc)
    ultimately show ?thesis by (simp only:)
  qed
  finally show ?case .
qed

lemma kbit_level_key:
  "l < 32 \<Longrightarrow> k \<le> l \<Longrightarrow> kbit (level_key l i) k = bit i (l - k)"
  by (auto simp: kbit_def level_key_def bit_simps)

lemma key_bits_level_key:
  assumes "l < 32"
  shows "key_bits (level_key l i) (Suc l) = map (\<lambda>k. bit i (l - k)) [0 ..< Suc l]"
  unfolding key_bits_def
  by (rule map_cong) (use assms in \<open>auto simp: kbit_level_key\<close>)

lemma bits_val_level_key:
  "l < 32 \<Longrightarrow> i < 2 ^ Suc l \<Longrightarrow> bits_val (key_bits (level_key l i) (Suc l)) = i"
  by (simp only: key_bits_level_key bits_val_nat_bits) simp

lemma level_key_0: "level_key l 0 = 0"
  by (simp add: level_key_def)

lemma level_key_Suc: "l < 32 \<Longrightarrow> level_key l i + bitpos l = level_key l (Suc i)"
  by (simp add: level_key_def bitpos_eq push_bit_eq_mult algebra_simps)

lemma level_key_eq_0:
  assumes "l < 32" and "0 < i" and "i \<le> 2 ^ Suc l"
  shows "level_key l i = 0 \<longleftrightarrow> i = 2 ^ Suc l"
proof -
  let ?n = "i * 2 ^ (31 - l)"
  have p: "(2::nat) ^ Suc l * 2 ^ (31 - l) = 2 ^ 32"
    using assms(1) by (simp flip: power_add)
  have k: "level_key l i = of_nat ?n"
    by (simp add: level_key_def push_bit_eq_mult)
  have u: "unat (level_key l i) = ?n mod 2 ^ 32"
    unfolding k using unat_of_nat [where 'a = 32, of ?n] by simp
  have "level_key l i = 0 \<longleftrightarrow> unat (level_key l i) = 0"
    by (simp add: unat_eq_0)
  also have "\<dots> \<longleftrightarrow> ?n mod 2 ^ 32 = 0"
    by (simp only: u)
  also have "\<dots> \<longleftrightarrow> ?n = 2 ^ 32"
  proof -
    have "0 < ?n" using assms(2) by simp
    moreover have "?n \<le> 2 ^ 32"
      using assms(3) p by (metis mult_le_mono1)
    ultimately show ?thesis
      by (metis mod_less mod_self le_neq_implies_less less_numeral_extra(3))
  qed
  also have "\<dots> \<longleftrightarrow> i = 2 ^ Suc l"
    using p by (metis mult_cancel2 power_eq_0_iff zero_neq_numeral)
  finally show ?thesis .
qed

lemma word_eq_kbit: "(\<And>i. kbit a i = kbit b i) \<Longrightarrow> a = b"
proof (rule bit_word_eqI)
  fix n assume n: "n < LENGTH(32)" and k: "\<And>i. kbit a i = kbit b i"
  from k [of "31 - n"] n show "bit a n = bit b n" by (auto simp: kbit_def)
qed

lemma next_mask: "drop_bit (Suc 0) (prefix_mask l) OR 0x80000000 = prefix_mask (Suc l)"
proof (rule word_eq_kbit)
  fix i
  have e: "(0x80000000 :: uint32_t) = push_bit 31 1" by simp
  have top: "bit (0x80000000 :: uint32_t) n \<longleftrightarrow> n = 31" for n
    by (simp only: e bit_push_bit_iff bit_1_iff) (auto simp: possible_bit_def)
  have "kbit (drop_bit (Suc 0) (prefix_mask l) OR 0x80000000) i \<longleftrightarrow>
          i < 32 \<and> (bit (prefix_mask l) (Suc (31 - i)) \<or> bit (0x80000000 :: uint32_t) (31 - i))"
    by (simp only: kbit_def bit_or_iff bit_drop_bit_eq add_Suc add_0 comp_def plus_nat.add_Suc plus_nat.add_0)
  also have "\<dots> \<longleftrightarrow> i < 32 \<and> (bit (prefix_mask l) (Suc (31 - i)) \<or> i = 0)"
    unfolding top by auto
  also have "\<dots> \<longleftrightarrow> kbit (prefix_mask (Suc l)) i"
    by (auto simp: kbit_def prefix_mask_def bit_not_iff bit_mask_iff possible_bit_def)
  finally show "kbit (drop_bit (Suc 0) (prefix_mask l) OR 0x80000000) i = kbit (prefix_mask (Suc l)) i" .
qed

lemma prefix_mask_0: "prefix_mask 0 = 0"
  by (rule bit_word_eqI) (simp add: prefix_mask_def bit_simps)

lemma bitpos_ge_32: "32 \<le> l \<Longrightarrow> bitpos l = 0"
  by (simp add: bitpos_eq)

subsection \<open>The loops of the preallocation\<close>

lemma full_to_level: "full_to t l (2 ^ Suc l) \<longleftrightarrow> full_to t (Suc l) 0"
proof -
  have "(length xs \<le> l \<or> (length xs = Suc l \<and> bits_val xs < 2 ^ Suc l)) \<longleftrightarrow>
        (length xs \<le> Suc l \<or> (length xs = Suc (Suc l) \<and> bits_val xs < 0))" for xs :: "bool list"
  proof (cases "length xs = Suc l")
    case True
    then show ?thesis using bits_val_less [of xs] by simp
  next
    case False
    then show ?thesis by auto
  qed
  then show ?thesis unfolding full_to_def by simp
qed

lemma prefix_mask_sat: "32 \<le> l \<Longrightarrow> prefix_mask l = prefix_mask 32"
  by (simp add: prefix_mask_def)

lemma prealloc_level_spec:
  assumes l: "l < 32"
  shows "tree_inv_fl t fl \<Longrightarrow> full_to t l i \<Longrightarrow> i < 2 ^ Suc l \<Longrightarrow>
     2 ^ Suc l - i \<le> nodes_left t \<Longrightarrow>
     \<exists>t' fl'. prealloc_level t (level_key l i) (prefix_mask (Suc l)) (bitpos l)
                 = Some (Inr (Some t')) \<and>
        tree_inv_fl t' fl' \<and> root t' = root t \<and> full_to t' (Suc l) 0 \<and>
        nodes_left t \<le> nodes_left t' + (2 ^ Suc l - i)"
proof (induction "2 ^ Suc l - i" arbitrary: t fl i)
  case 0
  then show ?case by simp
next
  case (Suc n)
  let ?key = "level_key l i" and ?msk = "prefix_mask (Suc l)"
  let ?path = "key_bits ?key (Suc l)"
  have ml: "mask_len ?msk = Suc l" using l by (simp add: mask_len_prefix_mask)
  have bv: "bits_val ?path = i" using l Suc.prems(3) by (rule bits_val_level_key)
  have none: "lookup t ?path = None" using Suc.prems(2) bv by (simp add: full_to_def)
  have pres: "lookup t (key_bits ?key l) \<noteq> None" using Suc.prems(2) by (simp add: full_to_def)
  note spec = ngx_radix32tree_insert_spec [OF Suc.prems(1), of ?key ?msk NGX_RADIX_NO_VALUE,
      unfolded ml]
  then obtain rc t1 fl1 where
    r: "ngx_radix32tree_insert t ?key ?msk NGX_RADIX_NO_VALUE = Inr (rc, t1)"
      "tree_inv_fl t1 fl1" "root t1 = root t"
    and busy: "rc = NGX_BUSY \<longrightarrow> (\<exists>w. lookup t ?path = Some w \<and> w \<noteq> NGX_RADIX_NO_VALUE)"
    and ok: "rc = NGX_OK \<longrightarrow>
        (\<forall>xs. lookup t1 xs =
           (if xs = ?path then Some NGX_RADIX_NO_VALUE
            else if (\<exists>k < Suc l. xs = key_bits ?key k) \<and> lookup t xs = None
                 then Some NGX_RADIX_NO_VALUE
            else lookup t xs))"
    and decl: "rc \<noteq> NGX_DECLINED"
    and left: "\<forall>j \<le> Suc l. lookup t (key_bits ?key j) \<noteq> None \<longrightarrow>
        nodes_left t \<le> nodes_left t1 + (Suc l - j) \<and>
        (Suc l - j \<le> nodes_left t \<longrightarrow> rc \<noteq> NGX_ERROR)"
    by blast
  from left [rule_format, of l] pres have nl: "nodes_left t \<le> nodes_left t1 + 1"
    and ne: "1 \<le> nodes_left t \<longrightarrow> rc \<noteq> NGX_ERROR"
    by (simp_all add: Suc_diff_le)
  have "1 \<le> nodes_left t" using Suc.prems(3,4) by simp
  with ne busy none decl have rc: "rc = NGX_OK" by (cases rc) auto
  have f1: "full_to t1 l (Suc i)"
    unfolding full_to_def
  proof
    fix xs
    show "lookup t1 xs =
        (if length xs \<le> l \<or> (length xs = Suc l \<and> bits_val xs < Suc i)
         then Some NGX_RADIX_NO_VALUE else None)"
    proof (cases "xs = ?path")
      case True
      then show ?thesis using ok rc bv by simp
    next
      case False
      have a: "\<not> ((\<exists>k < Suc l. xs = key_bits ?key k) \<and> lookup t xs = None)"
        using Suc.prems(2) by (auto simp: full_to_def)
      from False a ok rc have e: "lookup t1 xs = lookup t xs" by simp
      have "bits_val xs \<noteq> i" if "length xs = Suc l"
        using bits_val_inj [of xs ?path] that False bv by auto
      then have "(length xs = Suc l \<and> bits_val xs < Suc i) \<longleftrightarrow>
                 (length xs = Suc l \<and> bits_val xs < i)" by (auto simp: less_Suc_eq)
      then show ?thesis using e Suc.prems(2) by (simp add: full_to_def)
    qed
  qed
  have step: "?key + bitpos l = level_key l (Suc i)" using l by (rule level_key_Suc)
  have zero: "level_key l (Suc i) = 0 \<longleftrightarrow> Suc i = 2 ^ Suc l"
    using l Suc.prems(3) by (intro level_key_eq_0) simp_all
  show ?case
  proof (cases "Suc i = 2 ^ Suc l")
    case True
    then have "prealloc_level t ?key ?msk (bitpos l) = Some (Inr (Some t1))"
      using r(1) rc step zero by (subst prealloc_level.simps) simp
    moreover have "full_to t1 (Suc l) 0" using f1 True full_to_level by simp
    ultimately show ?thesis using r(2,3) nl True
      by (intro exI [of _ t1] exI [of _ fl1]) simp
  next
    case False
    then have i': "Suc i < 2 ^ Suc l" using Suc.prems(3) by simp
    have n: "n = 2 ^ Suc l - Suc i" using Suc.hyps(2) by simp
    have m: "2 ^ Suc l - Suc i \<le> nodes_left t1" using nl Suc.prems(4) by simp
    from Suc.hyps(1) [OF n r(2) f1 i' m] obtain t' fl' where
      t': "prealloc_level t1 (level_key l (Suc i)) ?msk (bitpos l) = Some (Inr (Some t'))"
        "tree_inv_fl t' fl'" "root t' = root t1" "full_to t' (Suc l) 0"
        "nodes_left t1 \<le> nodes_left t' + (2 ^ Suc l - Suc i)"
      by blast
    have "prealloc_level t ?key ?msk (bitpos l) = Some (Inr (Some t'))"
      using r(1) rc step zero False t'(1) by (subst prealloc_level.simps) simp
    moreover have "nodes_left t \<le> nodes_left t' + (2 ^ Suc l - i)"
      using nl t'(5) i' by simp
    ultimately show ?thesis using t'(2,3,4) r(3)
      by (intro exI [of _ t'] exI [of _ fl']) simp
  qed
qed

lemma insert_novalue_present:
  fixes t :: ngx_radix_tree_t and key msk :: uint32_t
  assumes "root t \<noteq> 0"
    and "lookup t (key_bits key (mask_len msk)) = Some NGX_RADIX_NO_VALUE"
  shows "ngx_radix32tree_insert t key msk NGX_RADIX_NO_VALUE = Inr (NGX_OK, t)"
proof -
  let ?p = "walk (nodes t) (root t) (key_bits key (mask_len msk))"
  from assms(2) have p: "?p \<noteq> 0" and v: "value (nodes t ?p) = NGX_RADIX_NO_VALUE"
    by (simp_all add: lookup_def split: if_splits)
  from insert_descend_root [OF assms(1), of key msk] p
  have d: "insert_descend (nodes t) key msk 0x80000000 (root t) (root t) =
             (bitpos (mask_len msk), ?p, ?p)" by simp
  have "(nodes t)(?p := (nodes t ?p)\<lparr>value := NGX_RADIX_NO_VALUE\<rparr>) = nodes t"
    using v by (metis fun_upd_triv ngx_radix_node_t.surjective ngx_radix_node_t.update_convs(4))
  then have "t\<lparr>nodes := (nodes t)(?p := (nodes t ?p)\<lparr>value := NGX_RADIX_NO_VALUE\<rparr>)\<rparr> = t"
    by simp
  with assms(1) d p v show ?thesis
    by (simp add: ngx_radix32tree_insert_def)
qed

lemma prealloc_level_sat:
  assumes l: "32 \<le> l" and inv: "tree_inv_fl t fl" and full: "full_to t 32 0"
  shows "prealloc_level t 0 (prefix_mask (Suc l)) (bitpos l) = Some (Inr (Some t))"
proof -
  let ?msk = "prefix_mask (Suc l)"
  have le: "mask_len ?msk \<le> 32" by (rule mask_len_le)
  have some: "lookup t (key_bits 0 (mask_len ?msk)) = Some NGX_RADIX_NO_VALUE"
    using full le unfolding full_to_def by (simp only: length_key_bits if_True simp_thms)
  have r: "root t \<noteq> 0" using tree_inv_flD(1) [OF inv] .
  have "bitpos l = 0" using l by (rule bitpos_ge_32)
  then show ?thesis
    using insert_novalue_present [OF r some]
    by (subst prealloc_level.simps) simp
qed

lemma prealloc_levels_spec:
  "tree_inv_fl t fl \<Longrightarrow> full_to t (min l 32) 0 \<Longrightarrow> n < 2 ^ 64 \<Longrightarrow>
   2 ^ Suc (min (l + n) 32) - 2 ^ Suc (min l 32) \<le> nodes_left t \<Longrightarrow>
   \<exists>t' fl'. prealloc_levels t (prefix_mask l) (bitpos l) (of_nat n) = Some (Inr (Some t')) \<and>
      tree_inv_fl t' fl' \<and> root t' = root t \<and> full_to t' (min (l + n) 32) 0"
proof (induction n arbitrary: t fl l)
  case 0
  have "prealloc_levels t (prefix_mask l) (bitpos l) (of_nat 0) = Some (Inr (Some t))"
    by (subst prealloc_levels.simps) simp
  with "0.prems"(1,2) show ?case
    by (intro exI [of _ t] exI [of _ fl]) simp
next
  case (Suc n)
  have nz: "(of_nat (Suc n) :: 64 word) \<noteq> 0"
  proof
    assume "(of_nat (Suc n) :: 64 word) = 0"
    then have "2 ^ LENGTH(64) dvd Suc n" by (simp only: word_of_nat_eq_0_iff)
    then have "2 ^ 64 \<le> Suc n" by (auto dest: dvd_imp_le)
    with Suc.prems(3) show False by simp
  qed
  have pred: "(of_nat (Suc n) :: 64 word) - 1 = of_nat n" by simp
  have n: "n < 2 ^ 64" using Suc.prems(3) by simp
  have unf: "prealloc_levels t (prefix_mask l) (bitpos l) (of_nat (Suc n)) =
     (case prealloc_level t 0 (prefix_mask (Suc l)) (bitpos l) of
           None \<Rightarrow> None
         | Some (Inl f) \<Rightarrow> Some (Inl f)
         | Some (Inr None) \<Rightarrow> Some (Inr None)
         | Some (Inr (Some t1)) \<Rightarrow>
             prealloc_levels t1 (prefix_mask (Suc l)) (bitpos (Suc l)) (of_nat n))"
    by (subst prealloc_levels.simps)
       (simp only: nz if_True not_False_eq_True Let_def One_nat_def next_mask bitpos_Suc pred)
  show ?case
  proof (cases "l < 32")
    case True
    then have m: "min l 32 = l" "min (Suc l) 32 = Suc l" by simp_all
    have e: "Suc l + n = l + Suc n" by simp
    define A where "A = (2::nat) ^ Suc (min (l + Suc n) 32)"
    define B where "B = (2::nat) ^ Suc l"
    have ge: "Suc (Suc l) \<le> Suc (min (l + Suc n) 32)" using True by simp
    have "2 * B = 2 ^ Suc (Suc l)" unfolding B_def by (rule power_Suc [symmetric])
    also have "\<dots> \<le> A" unfolding A_def using ge by (intro power_increasing) simp_all
    finally have p: "2 * B \<le> A" .
    have h4: "A - B \<le> nodes_left t"
      using Suc.prems(4) unfolding m A_def B_def .
    have "B - 0 \<le> nodes_left t" using p h4 by arith
    then have need: "2 ^ Suc l - 0 \<le> nodes_left t" unfolding B_def .
    have i0: "(0::nat) < 2 ^ Suc l" by simp
    from prealloc_level_spec [OF True Suc.prems(1) Suc.prems(2) [unfolded m] i0 need]
    obtain t1 fl1 where
      t1: "prealloc_level t (level_key l 0) (prefix_mask (Suc l)) (bitpos l) = Some (Inr (Some t1))"
        "tree_inv_fl t1 fl1" "root t1 = root t" "full_to t1 (Suc l) 0"
        "nodes_left t \<le> nodes_left t1 + (2 ^ Suc l - 0)"
      by blast
    have f: "full_to t1 (min (Suc l) 32) 0" using t1(4) unfolding m .
    have t15: "nodes_left t \<le> nodes_left t1 + (B - 0)" using t1(5) unfolding B_def .
    have "A - 2 * B \<le> nodes_left t1" using h4 t15 p by arith
    then have res: "2 ^ Suc (min (Suc l + n) 32) - 2 ^ Suc (min (Suc l) 32) \<le> nodes_left t1"
      unfolding m e A_def B_def by (simp only: power_Suc)
    from Suc.IH [OF t1(2) f n res] obtain t' fl' where
      t': "prealloc_levels t1 (prefix_mask (Suc l)) (bitpos (Suc l)) (of_nat n) = Some (Inr (Some t'))"
        "tree_inv_fl t' fl'" "root t' = root t1" "full_to t' (min (Suc l + n) 32) 0"
      by blast
    have "prealloc_levels t (prefix_mask l) (bitpos l) (of_nat (Suc n)) = Some (Inr (Some t'))"
      unfolding unf using t1(1) t'(1) by (simp add: level_key_0)
    moreover have "root t' = root t" using t'(3) t1(3) by simp
    moreover have "full_to t' (min (l + Suc n) 32) 0" using t'(4) unfolding e .
    ultimately show ?thesis using t'(2)
      by (intro exI [of _ t'] exI [of _ fl'] conjI)
  next
    case False
    then have l: "32 \<le> l" by simp
    then have m: "min l 32 = 32" "min (Suc l) 32 = 32" "min (l + Suc n) 32 = 32"
      "min (Suc l + n) 32 = 32" by simp_all
    define t1 where "t1 = t"
    define fl1 where "fl1 = fl"
    have t1: "prealloc_level t 0 (prefix_mask (Suc l)) (bitpos l) = Some (Inr (Some t1))"
        "tree_inv_fl t1 fl1" "root t1 = root t" "full_to t1 32 0"
      using prealloc_level_sat [OF l Suc.prems(1) Suc.prems(2) [unfolded m]]
        Suc.prems(1) Suc.prems(2) [unfolded m]
      unfolding t1_def fl1_def by simp_all
    have f: "full_to t1 (min (Suc l) 32) 0" using t1(4) m by simp
    have res: "2 ^ Suc (min (Suc l + n) 32) - 2 ^ Suc (min (Suc l) 32) \<le> nodes_left t1"
      unfolding m by (simp only: diff_self_eq_0 le0)
    from Suc.IH [OF t1(2) f n res] obtain t' fl' where
      t': "prealloc_levels t1 (prefix_mask (Suc l)) (bitpos (Suc l)) (of_nat n) = Some (Inr (Some t'))"
        "tree_inv_fl t' fl'" "root t' = root t1" "full_to t' (min (Suc l + n) 32) 0"
      by blast
    have "prealloc_levels t (prefix_mask l) (bitpos l) (of_nat (Suc n)) = Some (Inr (Some t'))"
      unfolding unf using t1(1) t'(1) by simp
    moreover have "root t' = root t" using t'(3) t1(3) by simp
    moreover have "full_to t' (min (l + Suc n) 32) 0" using t'(4) unfolding m .
    ultimately show ?thesis using t'(2)
      by (intro exI [of _ t'] exI [of _ fl'] conjI)
  qed
qed

subsection \<open>The creation\<close>

lemma os_fresh_suffix: "os_fresh pl \<Longrightarrow> os_suffix pl pl' \<Longrightarrow> os_fresh pl'"
  by (auto simp: os_fresh_def os_suffix_def future_slots_append)

lemma walk_leaf:
  "right (m r) = 0 \<Longrightarrow> left (m r) = 0 \<Longrightarrow> walk m r xs = (if xs = [] then r else 0)"
  by (cases xs) (simp_all add: child_def)

lemma pages_left_nodes: "unat (ngx_pagesize div sizeof_ngx_radix_node_t) = 128"
  by (simp add: ngx_pagesize_def sizeof_ngx_radix_node_t_def)

lemma root_alloc:
  fixes pool1 :: ngx_pool_t
  defines "t0 \<equiv> \<lparr>root = 0, pool = pool1, free = 0, start = 0, size_r = 0,
                   nodes = (\<lambda>a. \<lparr>right = 0, left = 0, parent = 0, value = 0\<rparr>)\<rparr>"
  assumes fresh: "os_fresh pool1" and mem: "0 < pages_left pool1"
    and a: "ngx_radix_alloc t0 = (r, t1)"
  defines "t2 \<equiv> t1\<lparr>root := r,
                    nodes := (nodes t1)(r := \<lparr>right = 0, left = 0, parent = 0,
                                              value = NGX_RADIX_NO_VALUE\<rparr>)\<rparr>"
  shows "r \<noteq> 0" and "\<exists>fl. tree_inv_fl t2 fl" and "full_to t2 0 0"
    and "128 * pages_left pool1 \<le> Suc (nodes_left t2)"
proof -
  have s0: "slots 0 (0 :: size_t) = []"
    by (rule slots_empty) (simp add: sizeof_ngx_radix_node_t_def)
  have av0: "avail t0 [] = future_slots (os pool1)"
    by (simp add: avail_def t0_def s0)
  have fl0: "flist (nodes t0) (free t0) []" by (simp add: t0_def)
  have d0: "distinct (avail t0 [])" and z0: "0 \<notin> set (avail t0 [])"
    using fresh unfolding av0 os_fresh_def by simp_all
  have nl0: "nodes_left t0 = 128 * pages_left pool1"
    by (simp add: nodes_left_def t0_def pages_left_nodes)
  from ngx_radix_alloc_left [OF a z0] mem nl0
  have left: "nodes_left t0 \<le> Suc (nodes_left t1)" and r: "r \<noteq> 0" by simp_all
  from ngx_radix_alloc_avail [OF fl0 d0 a] r obtain fl1 where
    s: "nodes t1 = nodes t0" "root t1 = root t0"
      "flist (nodes t0) (free t1) fl1" "distinct (avail t1 fl1)"
      "set (avail t1 fl1) \<subseteq> set (avail t0 [])" "r \<notin> set (avail t1 fl1)"
    by blast
  let ?m = "nodes t2"
  have m: "?m = (nodes t0)(r := \<lparr>right = 0, left = 0, parent = 0, value = NGX_RADIX_NO_VALUE\<rparr>)"
    by (simp add: t2_def s(1))
  have rt: "root t2 = r" by (simp add: t2_def)
  have av2: "avail t2 fl1 = avail t1 fl1" by (simp add: avail_def t2_def)
  have w: "walk ?m (root t2) xs = (if xs = [] then r else 0)" for xs
    unfolding rt by (rule walk_leaf) (simp_all add: m)
  have fls: "set fl1 \<subseteq> set (avail t1 fl1)" by (auto simp: avail_def)
  have fl2: "flist ?m (free t2) fl1"
  proof -
    have "flist ?m (free t1) fl1"
      by (rule flist_frame [OF s(3)]) (use fls s(6) m in auto)
    then show ?thesis by (simp add: t2_def)
  qed
  have z2: "0 \<notin> set (avail t2 fl1)" using z0 s(5) av2 by auto
  have inv: "tree_inv_fl t2 fl1"
  proof (rule tree_inv_flI)
    show "root t2 \<noteq> 0" using r rt by simp
    show "parent (?m (root t2)) = 0" by (simp add: rt m)
    show "\<forall>xs ys. walk ?m (root t2) xs \<noteq> 0 \<and> walk ?m (root t2) xs = walk ?m (root t2) ys
            \<longrightarrow> xs = ys"
      using r by (auto simp: w split: if_splits)
    show "\<forall>xs. walk ?m (root t2) xs \<noteq> 0 \<longrightarrow> length xs \<le> 32"
      by (auto simp: w split: if_splits)
    show "\<forall>xs c. walk ?m (root t2) (xs @ [c]) \<noteq> 0 \<longrightarrow>
            parent (?m (walk ?m (root t2) (xs @ [c]))) = walk ?m (root t2) xs"
      by (simp add: w)
    show "flist ?m (free t2) fl1" by (rule fl2)
    show "distinct (avail t2 fl1)" using s(4) av2 by simp
    show "0 \<notin> set (avail t2 fl1)" by (rule z2)
    show "\<forall>xs. walk ?m (root t2) xs \<notin> set (avail t2 fl1)"
      using z2 s(6) av2 by (auto simp: w)
  qed
  show "r \<noteq> 0" by (rule r)
  show "\<exists>fl. tree_inv_fl t2 fl" using inv by blast
  show "full_to t2 0 0"
    unfolding full_to_def lookup_def w using r by (auto simp: m)
  have "nodes_left t2 = nodes_left t1" by (simp add: nodes_left_def t2_def)
  with left nl0 show "128 * pages_left pool1 \<le> Suc (nodes_left t2)" by simp
qed

lemma create_complete:
  assumes d: "0 < d" "d < 2 ^ 64 - 1"
    and pa: "ngx_palloc pl sizeof_ngx_radix_tree_t = (tp, pool1)" and tp: "tp \<noteq> 0"
    and fresh: "os_fresh pl"
    and mem: "2 ^ Suc (min d 32) - 1 \<le> 128 * pages_left pool1"
  shows "\<exists>t fl. ngx_radix_tree_create pl (of_nat d) = Some (Inr (Some t)) \<and>
           tree_inv_fl t fl \<and> full_to t (min d 32) 0"
proof -
  let ?t0 = "\<lparr>root = 0, pool = pool1, free = 0, start = 0, size_r = 0,
               nodes = (\<lambda>a. \<lparr>right = 0, left = 0, parent = 0, value = 0\<rparr>)\<rparr>"
  obtain r t1 where a: "ngx_radix_alloc ?t0 = (r, t1)" by (cases "ngx_radix_alloc ?t0")
  let ?t2 = "t1\<lparr>root := r,
                nodes := (nodes t1)(r := \<lparr>right = 0, left = 0, parent = 0,
                                          value = NGX_RADIX_NO_VALUE\<rparr>)\<rparr>"
  have f1: "os_fresh pool1"
    using os_fresh_suffix [OF fresh] ngx_palloc_os(1) [of pl sizeof_ngx_radix_tree_t] pa by simp
  have "(1::nat) < 2 ^ Suc (min d 32)" by (rule one_less_power) simp_all
  then have m1: "0 < pages_left pool1" using mem by (cases "pages_left pool1") simp_all
  note ra = root_alloc [OF f1 m1 a]
  from ra(2) obtain fl where inv: "tree_inv_fl ?t2 fl" by blast
  have dl: "d < 2 ^ 64" using d(2) by simp
  have f0: "full_to ?t2 (min 0 32) 0" using ra(3) by simp
  have res: "2 ^ Suc (min (0 + d) 32) - 2 ^ Suc (min 0 32) \<le> nodes_left ?t2"
    using mem ra(4) by simp
  from prealloc_levels_spec [OF inv f0 dl res]
  obtain t' fl' where
    t': "prealloc_levels ?t2 (prefix_mask 0) (bitpos 0) (of_nat d) = Some (Inr (Some t'))"
      "tree_inv_fl t' fl'" "full_to t' (min (0 + d) 32) 0"
    by blast
  have nz: "(of_nat d :: 64 word) \<noteq> 0"
  proof
    assume "(of_nat d :: 64 word) = 0"
    then have "2 ^ LENGTH(64) dvd d" by (simp only: word_of_nat_eq_0_iff)
    then have "2 ^ 64 \<le> d" using d(1) by (auto dest: dvd_imp_le)
    with dl show False by simp
  qed
  have nm: "(of_nat d :: 64 word) \<noteq> - 1"
  proof
    assume "(of_nat d :: 64 word) = - 1"
    then have "(of_nat (Suc d) :: 64 word) = 0" by simp
    then have "2 ^ LENGTH(64) dvd Suc d" by (simp only: word_of_nat_eq_0_iff)
    then have "2 ^ 64 \<le> Suc d" by (auto dest: dvd_imp_le)
    with d(2) show False by simp
  qed
  have "ngx_radix_tree_create pl (of_nat d) = Some (Inr (Some t'))"
    using pa tp a ra(1) nz nm t'(1)
    by (simp add: ngx_radix_tree_create_def Let_def prefix_mask_0 bitpos_0)
  with t'(2,3) show ?thesis by auto
qed

lemma sum_pow2: "(\<Sum>i\<le>n. (2::nat) ^ i) = 2 ^ Suc n - 1"
  by (induction n) simp_all

lemma card_paths: "card {xs :: bool list. length xs \<le> n} = 2 ^ Suc n - 1"
proof -
  have "{xs :: bool list. length xs \<le> n} = {xs. set xs \<subseteq> UNIV \<and> length xs \<le> n}" by simp
  then show ?thesis
    using card_lists_length_le [of "UNIV :: bool set" n] by (simp add: sum_pow2)
qed

lemma finite_paths: "finite {xs :: bool list. length xs \<le> n}"
  using finite_lists_length_le [of "UNIV :: bool set" n] by simp

lemma complete_props:
  assumes inv: "tree_inv_fl t fl" and full: "full_to t D 0"
  shows "walk (nodes t) (root t) xs \<noteq> 0 \<longleftrightarrow> length xs \<le> D"
    and "length xs \<le> D \<Longrightarrow> value (nodes t (walk (nodes t) (root t) xs)) = NGX_RADIX_NO_VALUE"
    and "length xs = D \<Longrightarrow> right (nodes t (walk (nodes t) (root t) xs)) = 0 \<and>
                              left (nodes t (walk (nodes t) (root t) xs)) = 0"
    and "inj_on (walk (nodes t) (root t)) {xs. length xs \<le> D}"
    and "tree_nodes t = walk (nodes t) (root t) ` {xs. length xs \<le> D}"
    and "card (tree_nodes t) = 2 ^ Suc D - 1"
    and "card (tree_nodes t - {root t}) = 2 ^ Suc D - 2"
proof -
  let ?w = "walk (nodes t) (root t)"
  have l: "lookup t ys = (if length ys \<le> D then Some NGX_RADIX_NO_VALUE else None)" for ys
    using full by (simp add: full_to_def)
  show a: "?w ys \<noteq> 0 \<longleftrightarrow> length ys \<le> D" for ys
    using l [of ys] by (auto simp: lookup_def split: if_splits)
  show "length xs \<le> D \<Longrightarrow> value (nodes t (?w xs)) = NGX_RADIX_NO_VALUE"
    using l [of xs] by (auto simp: lookup_def split: if_splits)
  show "right (nodes t (?w xs)) = 0 \<and> left (nodes t (?w xs)) = 0" if "length xs = D"
  proof -
    have n: "?w xs \<noteq> 0" using a [of xs] that by simp
    have "?w (xs @ [c]) = 0" for c using a [of "xs @ [c]"] that by simp
    then have "child (nodes t) (?w xs) c = 0" for c by (simp add: walk_snoc)
    from this [of True] this [of False] n show ?thesis by (simp add: child_def)
  qed
  show inj: "inj_on ?w {xs. length xs \<le> D}"
  proof (rule inj_onI)
    fix xs ys assume "xs \<in> {xs. length xs \<le> D}" and "ys \<in> {xs. length xs \<le> D}"
      and e: "?w xs = ?w ys"
    then have "?w xs \<noteq> 0" using a [of xs] by simp
    with e tree_inv_flD(3) [OF inv] show "xs = ys" by blast
  qed
  show tn: "tree_nodes t = ?w ` {xs. length xs \<le> D}"
    unfolding tree_nodes_def using a by auto
  show c: "card (tree_nodes t) = 2 ^ Suc D - 1"
    unfolding tn by (simp only: card_image [OF inj] card_paths)
  have "root t \<in> tree_nodes t"
    unfolding tree_nodes_def using tree_inv_flD(1) [OF inv] by (auto intro: exI [of _ "[]"])
  moreover have "finite (tree_nodes t)" unfolding tn using finite_paths by (rule finite_imageI)
  ultimately have "card (tree_nodes t - {root t}) = card (tree_nodes t) - 1" by simp
  then show "card (tree_nodes t - {root t}) = 2 ^ Suc D - 2" using c by simp
qed

subsection \<open>Pools whose pages are fresh and whose chunk has room\<close>

lemma slots_page:
  "slots a ngx_pagesize = map (\<lambda>k. a + sizeof_ngx_radix_node_t * of_nat k) [0 ..< 128]"
  by (simp only: slots_def pages_left_nodes)

lemma aligned_multiple: "(n::nat) mod 4096 = 0 \<Longrightarrow> \<exists>q. n = 4096 * q"
  by (metis mod_eq_0_iff_dvd dvd_def)

lemma unat_slot:
  fixes a :: addr
  assumes al: "unat a mod 4096 = 0" and k: "k < 128"
  shows "unat (a + sizeof_ngx_radix_node_t * of_nat k) = unat a + 32 * k"
proof -
  have x: "unat (sizeof_ngx_radix_node_t * of_nat k :: addr) = 32 * k"
  proof -
    have "sizeof_ngx_radix_node_t * of_nat k = (of_nat (32 * k) :: addr)"
      by (simp add: sizeof_ngx_radix_node_t_def)
    moreover have "unat (of_nat (32 * k) :: addr) = 32 * k"
      using k by (simp only: unat_of_nat) simp
    ultimately show ?thesis by (simp only:)
  qed
  have lt: "unat a < 2 ^ 64" using unsigned_less [of a, where 'a = nat] by simp
  from aligned_multiple [OF al] obtain q where q: "unat a = 4096 * q" by blast
  have "4096 * q < 4096 * 2 ^ 52" using lt unfolding q by simp
  then have "q < 2 ^ 52" by (simp only: mult_less_cancel1)
  then have "4096 * q + 4096 \<le> 2 ^ 64" by simp
  with k have "unat a + 32 * k < 2 ^ LENGTH(64)" unfolding q by simp
  then have "unat (a + sizeof_ngx_radix_node_t * of_nat k) =
             unat a + unat (sizeof_ngx_radix_node_t * of_nat k :: addr)"
    unfolding x [symmetric] by (simp only: unat_add_lem)
  then show ?thesis by (simp only: x)
qed

lemma slot_in_page:
  fixes a :: addr
  assumes al: "unat a mod 4096 = 0" and s: "s \<in> set (slots a ngx_pagesize)"
  shows "unat s div 4096 = unat a div 4096" and "a \<noteq> 0 \<Longrightarrow> s \<noteq> 0"
proof -
  from s obtain k where k: "k < 128" "s = a + sizeof_ngx_radix_node_t * of_nat k"
    by (auto simp: slots_page)
  have u: "unat s = unat a + 32 * k" unfolding k(2) using al k(1) by (rule unat_slot)
  from aligned_multiple [OF al] obtain q where q: "unat a = 4096 * q" by blast
  have "32 * k < 4096" using k(1) by simp
  then have "(4096 * q + 32 * k) div 4096 = q" by simp
  then show "unat s div 4096 = unat a div 4096" unfolding u q by simp
  show "s \<noteq> 0" if "a \<noteq> 0"
  proof
    assume "s = 0"
    then have "unat a + 32 * k = 0" using u by simp
    then have "unat a = 0" by simp
    with that show False by (simp add: unat_eq_0)
  qed
qed

lemma distinct_slots_page:
  fixes a :: addr
  assumes al: "unat a mod 4096 = 0"
  shows "distinct (slots a ngx_pagesize)"
proof -
  have "inj_on (\<lambda>k. a + sizeof_ngx_radix_node_t * of_nat k) (set [0 ..< 128])"
  proof (rule inj_onI)
    fix k k' assume "k \<in> set [0 ..< 128]" and "k' \<in> set [0 ..< 128]"
      and e: "a + sizeof_ngx_radix_node_t * of_nat k = a + sizeof_ngx_radix_node_t * of_nat k'"
    then have k: "k < 128" "k' < 128" by simp_all
    from e have "unat (a + sizeof_ngx_radix_node_t * of_nat k) =
                 unat (a + sizeof_ngx_radix_node_t * of_nat k')" by (simp only:)
    then have "unat a + 32 * k = unat a + 32 * k'"
      by (simp only: unat_slot [OF al k(1)] unat_slot [OF al k(2)])
    then show "k = k'" by simp
  qed
  then show ?thesis unfolding slots_page by (simp only: distinct_map distinct_upt simp_thms)
qed

lemma aligned_same_page:
  fixes a b :: addr
  assumes "unat a mod 4096 = 0" and "unat b mod 4096 = 0"
    and "unat a div 4096 = unat b div 4096"
  shows "a = b"
proof -
  from aligned_multiple [OF assms(1)] obtain q where q: "unat a = 4096 * q" by blast
  from aligned_multiple [OF assms(2)] obtain r where r: "unat b = 4096 * r" by blast
  from assms(3) have "q = r" unfolding q r by simp
  then have "unat a = unat b" unfolding q r by simp
  then show ?thesis by (simp add: word_unat_eq_iff)
qed

lemma future_slots_fresh:
  fixes answers :: "addr list"
  assumes "distinct (filter (\<lambda>a. a \<noteq> 0) answers)"
    and "\<forall>a \<in> set answers. unat a mod 4096 = 0"
  shows "distinct (future_slots answers) \<and> 0 \<notin> set (future_slots answers) \<and>
         (\<forall>s \<in> set (future_slots answers).
            \<exists>a \<in> set answers. a \<noteq> 0 \<and> unat s div 4096 = unat a div 4096)"
  using assms
proof (induction answers)
  case Nil
  show ?case by (simp add: future_slots_def)
next
  case (Cons a as)
  have ih: "distinct (future_slots as)" "0 \<notin> set (future_slots as)"
    "\<forall>s \<in> set (future_slots as). \<exists>b \<in> set as. b \<noteq> 0 \<and> unat s div 4096 = unat b div 4096"
    using Cons.IH Cons.prems by (auto split: if_splits)
  show ?case
  proof (cases "a = 0")
    case True
    then have "future_slots (a # as) = future_slots as" by (simp add: future_slots_def)
    with ih show ?thesis by auto
  next
    case False
    have al: "unat a mod 4096 = 0" using Cons.prems(2) by simp
    have e: "future_slots (a # as) = slots a ngx_pagesize @ future_slots as"
      using False by (rule future_slots_Cons)
    have na: "a \<notin> set as" using Cons.prems(1) False by simp
    have disj: "set (slots a ngx_pagesize) \<inter> set (future_slots as) = {}"
    proof (rule ccontr)
      assume "set (slots a ngx_pagesize) \<inter> set (future_slots as) \<noteq> {}"
      then obtain s where s: "s \<in> set (slots a ngx_pagesize)" "s \<in> set (future_slots as)"
        by blast
      from ih(3) s(2) obtain b where b: "b \<in> set as" "unat s div 4096 = unat b div 4096"
        by blast
      have "unat b mod 4096 = 0" using Cons.prems(2) b(1) by simp
      with al slot_in_page(1) [OF al s(1)] b(2) have "a = b"
        by (intro aligned_same_page) simp_all
      with na b(1) show False by simp
    qed
    have "distinct (future_slots (a # as))"
      unfolding e using distinct_slots_page [OF al] ih(1) disj by simp
    moreover have "0 \<notin> set (future_slots (a # as))"
      unfolding e using slot_in_page(2) [OF al _ False] ih(2) by auto
    moreover have "\<forall>s \<in> set (future_slots (a # as)).
            \<exists>b \<in> set (a # as). b \<noteq> 0 \<and> unat s div 4096 = unat b div 4096"
      unfolding e using slot_in_page(1) [OF al] False ih(3) by auto
    ultimately show ?thesis by (intro conjI)
  qed
qed

lemma os_fresh_pages:
  assumes "distinct (filter (\<lambda>a. a \<noteq> 0) (os pl))"
    and "\<forall>a \<in> set (os pl). unat a mod 4096 = 0"
  shows "os_fresh pl"
  unfolding os_fresh_def using future_slots_fresh [OF assms] by simp

lemma os_fresh_pool_1024: "os_fresh pool_1024"
  by (rule os_fresh_pages) (simp_all add: pool_1024_def)

lemma align8:
  fixes p :: addr
  assumes "unat p mod 8 = 0"
  shows "ngx_align_ptr p NGX_ALIGNMENT = p"
proof -
  from assms obtain k where k: "unat p = 8 * k" by (metis mod_eq_0_iff_dvd dvd_def)
  have "p = of_nat (unat p)" by simp
  also have "\<dots> = push_bit 3 (of_nat k)" unfolding k by (simp add: push_bit_eq_mult)
  finally have p: "p = push_bit 3 (of_nat k)" .
  have m: "(7::addr) = mask 3" by (simp add: mask_eq_exp_minus_1)
  have d: "p AND 7 = 0" unfolding m
    by (subst p, rule bit_word_eqI) (auto simp: bit_simps)
  have "p + 7 = p OR 7" using d by (rule disjunctive_add_eq_or)
  also have "\<dots> AND NOT 7 = p"
    unfolding m by (subst (1 2) p, rule bit_word_eqI) (auto simp: bit_simps)
  finally show ?thesis by (simp add: ngx_align_ptr_def NGX_ALIGNMENT_def)
qed

lemma palloc_roomy:
  fixes sz :: size_t
  assumes c: "chunks pl = [c]" "current pl = 0" and sz: "sz \<le> max_p pl"
    and al: "unat (d_last c) mod 8 = 0"
    and room: "unat (d_last c) + unat sz \<le> unat (d_end c)"
  shows "ngx_palloc pl sz = (d_last c, pl\<lparr>chunks := [c\<lparr>d_last := d_last c + sz\<rparr>]\<rparr>)"
proof -
  have "sz \<le> d_end c - d_last c" using room by unat_arith
  then have "palloc_scan [c] 0 sz = Some (d_last c, [c\<lparr>d_last := d_last c + sz\<rparr>])"
    by (subst palloc_scan.simps) (simp add: Let_def align8 [OF al])
  then show ?thesis using c sz by (subst ngx_palloc.simps) simp
qed

lemma pmemalign_roomy:
  assumes c: "chunks pl = [c]" "current pl = 0" and mx: "sizeof_ngx_pool_large_t \<le> max_p pl"
    and al: "unat (d_last c) mod 8 = 0" and pos: "0 < unat (d_last c)"
    and room: "unat (d_last c) + 16 \<le> unat (d_end c)"
    and os: "os pl = a # rest" and a: "a \<noteq> 0"
  shows "\<exists>pl'. ngx_pmemalign pl ngx_pagesize ngx_pagesize = (a, pl') \<and>
           chunks pl' = [c\<lparr>d_last := d_last c + 16\<rparr>] \<and> current pl' = 0 \<and>
           max_p pl' = max_p pl \<and> os pl' = rest"
proof -
  let ?p1 = "pl\<lparr>os := rest\<rparr>"
  have m: "ngx_memalign ngx_pagesize ngx_pagesize pl = (a, ?p1)"
    using os by (simp add: ngx_memalign_def)
  have r: "unat (d_last c) + unat sizeof_ngx_pool_large_t \<le> unat (d_end c)"
    using room by (simp add: sizeof_ngx_pool_large_t_def)
  have "ngx_palloc ?p1 sizeof_ngx_pool_large_t =
          (d_last c, ?p1\<lparr>chunks := [c\<lparr>d_last := d_last c + sizeof_ngx_pool_large_t\<rparr>]\<rparr>)"
    by (rule palloc_roomy) (use c mx al r in simp_all)
  moreover have "d_last c \<noteq> 0" using pos by (auto simp: unat_eq_0)
  ultimately show ?thesis
    using m a c(2) by (simp add: ngx_pmemalign_def sizeof_ngx_pool_large_t_def)
qed

lemma pages_left_roomy:
  "chunks pl = [c] \<Longrightarrow> current pl = 0 \<Longrightarrow> sizeof_ngx_pool_large_t \<le> max_p pl \<Longrightarrow>
   unat (d_last c) mod 8 = 0 \<Longrightarrow> 0 < unat (d_last c) \<Longrightarrow>
   unat (d_last c) + 16 * n \<le> unat (d_end c) \<Longrightarrow>
   n \<le> length (os pl) \<Longrightarrow> (\<forall>a \<in> set (take n (os pl)). a \<noteq> 0) \<Longrightarrow>
   n \<le> pages_left pl"
proof (induction n arbitrary: pl c)
  case 0
  show ?case by simp
next
  case (Suc n)
  from Suc.prems(7) obtain a rest where os: "os pl = a # rest" by (cases "os pl") auto
  with Suc.prems(8) have a: "a \<noteq> 0" by simp
  have room: "unat (d_last c) + 16 \<le> unat (d_end c)" using Suc.prems(6) by simp
  from pmemalign_roomy [OF Suc.prems(1,2,3,4,5) room os a] obtain pl' where
    p: "ngx_pmemalign pl ngx_pagesize ngx_pagesize = (a, pl')"
      "chunks pl' = [c\<lparr>d_last := d_last c + 16\<rparr>]" "current pl' = 0"
      "max_p pl' = max_p pl" "os pl' = rest"
    by blast
  let ?c = "c\<lparr>d_last := d_last c + 16\<rparr>"
  have lt: "unat (d_end c) < 2 ^ 64" using unsigned_less [of "d_end c", where 'a = nat] by simp
  have u: "unat (d_last c + 16) = unat (d_last c) + 16"
  proof -
    have "unat (d_last c) + unat (16 :: addr) < 2 ^ LENGTH(64)" using room lt by simp
    then show ?thesis by (simp only: unat_add_lem) simp
  qed
  have "n \<le> pages_left pl'"
  proof (rule Suc.IH [OF p(2) p(3)])
    show "sizeof_ngx_pool_large_t \<le> max_p pl'" using Suc.prems(3) p(4) by simp
    show "unat (d_last ?c) mod 8 = 0" using Suc.prems(4) u by (simp add: mod_add_left_eq [symmetric])
    show "0 < unat (d_last ?c)" using u by simp
    show "unat (d_last ?c) + 16 * n \<le> unat (d_end ?c)" using Suc.prems(6) u by simp
    show "n \<le> length (os pl')" using Suc.prems(7) os p(5) by simp
    show "\<forall>a \<in> set (take n (os pl')). a \<noteq> 0" using Suc.prems(8) os p(5) by simp
  qed
  moreover have "pages_left pl = Suc (pages_left pl')"
    using p(1) a by (subst pages_left.simps) simp
  ultimately show ?case by simp
qed

lemma huge_pool_created:
  "ngx_create_pool 0x100000000 0 (4096 # huge_pages) = Some huge_pool"
  by (simp add: ngx_create_pool_def huge_pool_def sizeof_ngx_pool_t_def
      NGX_MAX_ALLOC_FROM_POOL_def ngx_pagesize_def)

lemma huge_page_unat:
  assumes "i < 134217728"
  shows "unat (0x200000000 + ngx_pagesize * of_nat i :: addr) = 8589934592 + 4096 * i"
proof -
  have "(0x200000000 + ngx_pagesize * of_nat i :: addr) = of_nat (8589934592 + 4096 * i)"
    by (simp add: ngx_pagesize_def)
  moreover have "unat (of_nat (8589934592 + 4096 * i) :: addr) = 8589934592 + 4096 * i"
    using assms by (simp only: unat_of_nat) simp
  ultimately show ?thesis by (simp only:)
qed

lemma length_huge_pages: "length huge_pages = 134217728"
  by (simp only: huge_pages_def length_map length_upt diff_zero)

lemma huge_pages_aligned:
  assumes "a \<in> set huge_pages"
  shows "a \<noteq> 0" and "unat a mod 4096 = 0"
proof -
  from assms obtain i where i: "i < 134217728" "a = 0x200000000 + ngx_pagesize * of_nat i"
    unfolding huge_pages_def by auto
  have u: "unat a = 8589934592 + 4096 * i" unfolding i(2) using i(1) by (rule huge_page_unat)
  then have "unat a \<noteq> 0" by simp
  then show "a \<noteq> 0" by (simp add: unat_eq_0)
  show "unat a mod 4096 = 0" unfolding u by simp
qed

lemma distinct_huge_pages: "distinct huge_pages"
proof -
  have "inj_on (\<lambda>i. 0x200000000 + ngx_pagesize * of_nat i :: addr) (set [0 ..< 134217728])"
  proof (rule inj_onI)
    fix i j assume "i \<in> set [0 ..< 134217728]" and "j \<in> set [0 ..< 134217728]"
      and e: "(0x200000000 + ngx_pagesize * of_nat i :: addr) =
              0x200000000 + ngx_pagesize * of_nat j"
    then have ij: "i < 134217728" "j < 134217728" by simp_all
    from e have "unat (0x200000000 + ngx_pagesize * of_nat i :: addr) =
                 unat (0x200000000 + ngx_pagesize * of_nat j :: addr)" by (simp only:)
    then have "8589934592 + 4096 * i = 8589934592 + 4096 * j"
      by (simp only: huge_page_unat [OF ij(1)] huge_page_unat [OF ij(2)])
    then show "i = j" by simp
  qed
  then show ?thesis unfolding huge_pages_def by (simp only: distinct_map distinct_upt simp_thms)
qed

lemma os_huge_pool: "os huge_pool = huge_pages"
  by (simp add: huge_pool_def)

lemma os_fresh_huge_pool: "os_fresh huge_pool"
proof (rule os_fresh_pages)
  have "filter (\<lambda>a. a \<noteq> 0) huge_pages = huge_pages"
    by (rule filter_True) (blast dest: huge_pages_aligned(1))
  then show "distinct (filter (\<lambda>a. a \<noteq> 0) (os huge_pool))"
    unfolding os_huge_pool using distinct_huge_pages by (simp only:)
  show "\<forall>a \<in> set (os huge_pool). unat a mod 4096 = 0"
    unfolding os_huge_pool using huge_pages_aligned(2) by blast
qed

lemma palloc_huge:
  "ngx_palloc huge_pool sizeof_ngx_radix_tree_t =
     (4176, huge_pool\<lparr>chunks := [\<lparr>base = 4096, d_last = 4216, d_end = 0x100001000,
                                    d_failed = 0\<rparr>]\<rparr>)"
proof -
  let ?c = "\<lparr>base = 4096, d_last = 4176, d_end = 0x100001000, d_failed = 0\<rparr> :: ngx_pool_data_t"
  have "ngx_palloc huge_pool sizeof_ngx_radix_tree_t =
          (d_last ?c, huge_pool\<lparr>chunks := [?c\<lparr>d_last := d_last ?c + sizeof_ngx_radix_tree_t\<rparr>]\<rparr>)"
    by (rule palloc_roomy) (simp_all add: huge_pool_def sizeof_ngx_radix_tree_t_def)
  then show ?thesis by (simp add: sizeof_ngx_radix_tree_t_def)
qed

lemma pages_left_huge:
  "134217728 \<le> pages_left (huge_pool\<lparr>chunks := [\<lparr>base = 4096, d_last = 4216,
                                           d_end = 0x100001000, d_failed = 0\<rparr>]\<rparr>)"
proof (rule pages_left_roomy)
  let ?c = "\<lparr>base = 4096, d_last = 4216, d_end = 0x100001000, d_failed = 0\<rparr> :: ngx_pool_data_t"
  let ?p = "huge_pool\<lparr>chunks := [?c]\<rparr>"
  show "chunks ?p = [?c]" by simp
  show "current ?p = 0" by (simp add: huge_pool_def)
  show "sizeof_ngx_pool_large_t \<le> max_p ?p"
    by (simp add: huge_pool_def sizeof_ngx_pool_large_t_def)
  show "unat (d_last ?c) mod 8 = 0" by simp
  show "0 < unat (d_last ?c)" by simp
  show "unat (d_last ?c) + 16 * 134217728 \<le> unat (d_end ?c)" by simp
  have o: "os ?p = huge_pages" by (simp add: huge_pool_def)
  show "134217728 \<le> length (os ?p)" unfolding o by (simp only: length_huge_pages)
  show "\<forall>a \<in> set (take 134217728 (os ?p)). a \<noteq> 0"
    unfolding o using huge_pages_aligned(1) by (auto dest: in_set_takeD)
qed

lemma enough_memory_huge: "enough_memory huge_pool (2 ^ 34 - 1)"
proof -
  have "(2::nat) ^ 34 - 1 \<le> 128 * 134217728" by simp
  also have "\<dots> \<le> 128 * pages_left (huge_pool\<lparr>chunks := [\<lparr>base = 4096, d_last = 4216,
                                           d_end = 0x100001000, d_failed = 0\<rparr>]\<rparr>)"
    using pages_left_huge by (rule mult_le_mono2)
  finally show ?thesis
    unfolding enough_memory_def palloc_huge by (simp add: pages_left_nodes)
qed

lemma enough_memory_mono: "enough_memory pl n \<Longrightarrow> m \<le> n \<Longrightarrow> enough_memory pl m"
  by (auto simp: enough_memory_def)

lemma enough_memory_pool_1024: "enough_memory pool_1024 15"
proof -
  let ?c = "\<lparr>base = 4096, d_last = 4216, d_end = 5120, d_failed = 0\<rparr> :: ngx_pool_data_t"
  let ?p = "pool_1024\<lparr>chunks := [?c]\<rparr>"
  have "1 \<le> pages_left ?p"
    by (rule pages_left_roomy [where c = ?c])
       (simp_all add: pool_1024_def sizeof_ngx_pool_large_t_def)
  then have "15 \<le> 128 * pages_left ?p" by simp
  then show ?thesis
    unfolding enough_memory_def palloc_40 by (simp add: pages_left_nodes)
qed

subsection \<open>Preallocation builds a complete tree\<close>

text \<open>
  C8. Let \<open>0 < d \<le> 32\<close>, let the blocks that the operating system will hand out be
  fresh, and let the memory suffice for the \<open>2\<^sup>d\<^sup>+\<^sup>1 - 1\<close> nodes. Then
  \<open>ngx_radix_tree_create\<close> with \<open>preallocate = d\<close> returns a tree in which the paths
  that lead to a node are exactly those of length at most \<open>d\<close>, different paths lead to
  different nodes, there are \<open>2\<^sup>d\<^sup>+\<^sup>1 - 2\<close> nodes besides the root, every node
  carries \<open>NGX_RADIX_NO_VALUE\<close>, and the nodes of depth \<open>d\<close> have no children.
\<close>

theorem ngx_radix_tree_create_complete:
  assumes "0 < d" and "d \<le> 32" and "os_fresh pl" and "enough_memory pl (2 ^ Suc d - 1)"
  shows "\<exists>t. ngx_radix_tree_create pl (of_nat d) = Some (Inr (Some t)) \<and>
           root t \<noteq> 0 \<and> parent (nodes t (root t)) = 0 \<and>
           (\<forall>xs. walk (nodes t) (root t) xs \<noteq> 0 \<longleftrightarrow> length xs \<le> d) \<and>
           inj_on (walk (nodes t) (root t)) {xs. length xs \<le> d} \<and>
           card (tree_nodes t - {root t}) = 2 ^ Suc d - 2 \<and>
           (\<forall>xs. length xs \<le> d \<longrightarrow>
              value (nodes t (walk (nodes t) (root t) xs)) = NGX_RADIX_NO_VALUE) \<and>
           (\<forall>xs. length xs = d \<longrightarrow>
              right (nodes t (walk (nodes t) (root t) xs)) = 0 \<and>
              left (nodes t (walk (nodes t) (root t) xs)) = 0)"
proof -
  obtain tp pool1 where pa: "ngx_palloc pl sizeof_ngx_radix_tree_t = (tp, pool1)"
    by (cases "ngx_palloc pl sizeof_ngx_radix_tree_t")
  with assms(4) have tp: "tp \<noteq> 0" and mem: "2 ^ Suc d - 1 \<le> 128 * pages_left pool1"
    by (simp_all add: enough_memory_def pages_left_nodes)
  have m: "min d 32 = d" using assms(2) by simp
  have d2: "d < 2 ^ 64 - 1" using assms(2) by simp
  have mem': "2 ^ Suc (min d 32) - 1 \<le> 128 * pages_left pool1" using mem unfolding m .
  from create_complete [OF assms(1) d2 pa tp assms(3) mem', unfolded m]
  obtain t fl where
    t: "ngx_radix_tree_create pl (of_nat d) = Some (Inr (Some t))" "tree_inv_fl t fl"
      "full_to t d 0"
    by blast
  note p = complete_props [OF t(2,3)]
  show ?thesis
    using t(1) tree_inv_flD(1,2) [OF t(2)] p(1,2,3,4,7)
    by (intro exI [of _ t] conjI allI impI) simp_all
qed

theorem ngx_radix_tree_create_complete_witness:
  "(0::nat) < 3 \<and> (3::nat) \<le> 32 \<and> os_fresh pool_1024 \<and> enough_memory pool_1024 (2 ^ Suc 3 - 1) \<and>
   (\<exists>t. ngx_radix_tree_create pool_1024 3 = Some (Inr (Some t)) \<and>
      card (tree_nodes t - {root t}) = 14 \<and>
      walk (nodes t) (root t) [True, False, True] \<noteq> 0 \<and>
      value (nodes t (walk (nodes t) (root t) [True, False, True])) = NGX_RADIX_NO_VALUE \<and>
      right (nodes t (walk (nodes t) (root t) [True, False, True])) = 0 \<and>
      left (nodes t (walk (nodes t) (root t) [True, False, True])) = 0 \<and>
      walk (nodes t) (root t) [True, False, True, False] = 0)"
proof -
  have h: "(0::nat) < 3" "(3::nat) \<le> 32" by simp_all
  have m: "enough_memory pool_1024 (2 ^ Suc 3 - 1)" using enough_memory_pool_1024 by simp
  from ngx_radix_tree_create_complete [OF h os_fresh_pool_1024 m] obtain t where
    t: "ngx_radix_tree_create pool_1024 (of_nat 3) = Some (Inr (Some t))"
      "\<forall>xs. walk (nodes t) (root t) xs \<noteq> 0 \<longleftrightarrow> length xs \<le> 3"
      "card (tree_nodes t - {root t}) = 2 ^ Suc 3 - 2"
      "\<forall>xs. length xs \<le> 3 \<longrightarrow>
              value (nodes t (walk (nodes t) (root t) xs)) = NGX_RADIX_NO_VALUE"
      "\<forall>xs. length xs = 3 \<longrightarrow>
              right (nodes t (walk (nodes t) (root t) xs)) = 0 \<and>
              left (nodes t (walk (nodes t) (root t) xs)) = 0"
    by blast
  have a: "ngx_radix_tree_create pool_1024 3 = Some (Inr (Some t))" using t(1) by simp
  have b: "card (tree_nodes t - {root t}) = 14" using t(3) by simp
  have c: "walk (nodes t) (root t) [True, False, True] \<noteq> 0"
    using t(2) [rule_format, of "[True, False, True]"] by simp
  have d: "walk (nodes t) (root t) [True, False, True, False] = 0"
    using t(2) [rule_format, of "[True, False, True, False]"] by simp
  have e: "value (nodes t (walk (nodes t) (root t) [True, False, True])) = NGX_RADIX_NO_VALUE"
    using t(4) [rule_format, of "[True, False, True]"] by simp
  have f: "right (nodes t (walk (nodes t) (root t) [True, False, True])) = 0 \<and>
           left (nodes t (walk (nodes t) (root t) [True, False, True])) = 0"
    using t(5) [rule_format, of "[True, False, True]"] by simp
  show ?thesis
    using h os_fresh_pool_1024 m a b c d e f
    by (intro conjI exI [of _ t]) simp_all
qed

text \<open>
  The bound \<open>d \<le> 32\<close> is needed. With \<open>preallocate = 33\<close> and memory for \<open>2\<^sup>3\<^sup>4 - 1\<close>
  nodes the 33rd round of the outer loop inserts the key 0 with the mask \<open>0xFFFFFFFF\<close>
  once more and ends, \<open>inc\<close> being 0: the tree stays the complete tree of depth 32, with
  \<open>2\<^sup>3\<^sup>3 - 2\<close> nodes besides the root and none of depth 33.
\<close>

theorem ngx_radix_tree_create_depth_33:
  "os_fresh huge_pool \<and> enough_memory huge_pool (2 ^ 34 - 1) \<and>
   created_tree huge_pool 33 \<noteq> None \<and>
   card (tree_nodes (the (created_tree huge_pool 33))
           - {root (the (created_tree huge_pool 33))}) = 2 ^ 33 - 2 \<and>
   walk (nodes (the (created_tree huge_pool 33))) (root (the (created_tree huge_pool 33)))
     (replicate 33 False) = 0"
proof -
  have tp: "(4176 :: addr) \<noteq> 0" by simp
  have mem: "2 ^ Suc (min 33 32) - 1 \<le>
        128 * pages_left (huge_pool\<lparr>chunks := [\<lparr>base = 4096, d_last = 4216,
                                           d_end = 0x100001000, d_failed = 0\<rparr>]\<rparr>)"
    using pages_left_huge by simp
  have d: "(0::nat) < 33" "(33::nat) < 2 ^ 64 - 1" by simp_all
  from create_complete [OF d palloc_huge tp os_fresh_huge_pool mem]
  obtain t fl where
    t: "ngx_radix_tree_create huge_pool (of_nat 33) = Some (Inr (Some t))" "tree_inv_fl t fl"
      "full_to t (min 33 32) 0"
    by blast
  have ct: "created_tree huge_pool 33 = Some t" using t(1) by (simp add: created_tree_def)
  have f: "full_to t 32 0" using t(3) by simp
  note p = complete_props [OF t(2) f]
  have "walk (nodes t) (root t) (replicate 33 False) = 0"
    using p(1) [of "replicate 33 False"] by simp
  moreover have "card (tree_nodes t - {root t}) = 2 ^ 33 - 2" using p(7) by simp
  ultimately show ?thesis
    using os_fresh_huge_pool enough_memory_huge unfolding ct by simp
qed

section \<open>Properties of the radix tree: deletes and lookups\<close>

subsection \<open>Unhooking a childless node\<close>

lemma child_prune:
  "node \<noteq> par \<Longrightarrow>
   child (prune m par c node fr) q y =
     (if q = 0 then 0 else if q = par \<and> y = c then 0
      else if q = node then (if y then fr else left (m node)) else child m q y)"
  by (auto simp: child_def prune_def Let_def)

lemma prune_other: "q \<noteq> par \<Longrightarrow> q \<noteq> node \<Longrightarrow> prune m par c node fr q = m q"
  by (simp add: prune_def Let_def)

lemma prune_fields:
  "node \<noteq> par \<Longrightarrow>
     parent (prune m par c node fr q) = parent (m q) \<and>
     value (prune m par c node fr q) = value (m q) \<and>
     (q \<noteq> par \<longrightarrow> left (prune m par c node fr q) = left (m q)) \<and>
     (q \<noteq> par \<and> q \<noteq> node \<longrightarrow> right (prune m par c node fr q) = right (m q)) \<and>
     right (prune m par c node fr node) = fr"
  by (auto simp: prune_def Let_def)

lemma walk_prune:
  assumes inj: "\<forall>xs ys. walk m r xs \<noteq> 0 \<and> walk m r xs = walk m r ys \<longrightarrow> xs = ys"
    and par: "walk m r pre = par" "par \<noteq> 0"
    and node: "child m par c = node" "node \<noteq> 0"
    and leaf: "right (m node) = 0" "left (m node) = 0"
  shows "walk (prune m par c node fr) r ys = (if ys = pre @ [c] then 0 else walk m r ys)"
proof (induction ys rule: rev_induct)
  case Nil
  then show ?case by simp
next
  case (snoc y ys)
  let ?m2 = "prune m par c node fr"
  have wn: "walk m r (pre @ [c]) = node" using par node by (simp add: walk_snoc)
  have np: "node \<noteq> par"
  proof
    assume "node = par"
    then have "walk m r (pre @ [c]) = walk m r pre" using wn par by simp
    with inj wn node(2) have "pre @ [c] = pre" by metis
    then show False by simp
  qed
  show ?case
  proof (cases "ys = pre @ [c]")
    case True
    then have "walk ?m2 r ys = 0" using snoc.IH by simp
    then have "walk ?m2 r (ys @ [y]) = 0" by (simp add: walk_snoc)
    moreover have "walk m r (ys @ [y]) = 0"
      using True wn leaf node(2) by (simp add: walk_append child_def)
    ultimately show ?thesis using True by simp
  next
    case False
    then have ih: "walk ?m2 r ys = walk m r ys" using snoc.IH by simp
    let ?q = "walk m r ys"
    have qn: "?q \<noteq> node"
    proof
      assume "?q = node"
      with inj wn node(2) have "ys = pre @ [c]" by metis
      with False show False by simp
    qed
    show ?thesis
    proof (cases "?q = par")
      case True
      then have "ys = pre" using inj par by metis
      with True ih np par(2) qn show ?thesis
        by (simp add: walk_snoc child_prune)
    next
      case False
      then have "ys \<noteq> pre" using par(1) by auto
      with False ih np qn show ?thesis
        by (simp add: walk_snoc child_prune)
    qed
  qed
qed

lemma tree_inv_prune:
  assumes inv: "tree_inv_fl t fl"
    and node: "walk (nodes t) (root t) (pre @ [c]) = node" "node \<noteq> 0"
    and leaf: "right (nodes t node) = 0" "left (nodes t node) = 0"
  defines "par \<equiv> walk (nodes t) (root t) pre"
  defines "t1 \<equiv> t\<lparr>nodes := prune (nodes t) par c node (free t), free := node\<rparr>"
  shows "tree_inv_fl t1 (node # fl)"
    and "\<forall>ys. walk (nodes t1) (root t1) ys =
               (if ys = pre @ [c] then 0 else walk (nodes t) (root t) ys)"
    and "par \<noteq> 0" and "parent (nodes t node) = par" and "node \<noteq> par"
    and "right (nodes t par) = node \<longleftrightarrow> c"
proof -
  let ?m = "nodes t" and ?r = "root t"
  let ?m2 = "prune ?m par c node (free t)"
  note d = tree_inv_flD [OF inv]
  have ch: "child ?m par c = node" using node(1) by (simp add: walk_snoc par_def)
  show p0: "par \<noteq> 0" using ch node(2) by (auto simp: child_def)
  show pn: "parent (?m node) = par" using d(5) node by (auto simp: par_def)
  have w: "walk ?m2 ?r ys = (if ys = pre @ [c] then 0 else walk ?m ?r ys)" for ys
    by (rule walk_prune [OF d(3) _ p0 ch node(2) leaf]) (simp add: par_def)
  show np: "node \<noteq> par"
  proof
    assume "node = par"
    then have "walk ?m ?r (pre @ [c]) = walk ?m ?r pre" using node(1) by (simp add: par_def)
    with d(3) node have "pre @ [c] = pre" by metis
    then show False by simp
  qed
  show "right (?m par) = node \<longleftrightarrow> c"
  proof (cases c)
    case True
    with ch p0 show ?thesis by (simp add: child_def)
  next
    case False
    have "right (?m par) \<noteq> node"
    proof
      assume "right (?m par) = node"
      then have "walk ?m ?r (pre @ [True]) = node" using p0 by (simp add: walk_snoc child_def par_def)
      with d(3) node have "pre @ [True] = pre @ [c]" by metis
      with False show False by simp
    qed
    with False show ?thesis by simp
  qed
  have rt: "root t1 = ?r" and m1: "nodes t1 = ?m2" and fr: "free t1 = node"
    by (simp_all add: t1_def)
  show "\<forall>ys. walk (nodes t1) (root t1) ys = (if ys = pre @ [c] then 0 else walk ?m ?r ys)"
    unfolding rt m1 using w by simp
  have av: "avail t1 (node # fl) = node # avail t fl" by (simp add: avail_def t1_def)
  have reach: "a \<noteq> node \<and> a \<noteq> par" if "a \<in> set (avail t fl)" for a
    using d(9) that node(1) par_def by metis
  have leafw: "walk ?m ?r ((pre @ [c]) @ zs) = 0" if "zs \<noteq> []" for zs
    using that node leaf by (cases zs) (simp_all add: walk_append child_def)
  show "tree_inv_fl t1 (node # fl)"
  proof (rule tree_inv_flI)
    show "root t1 \<noteq> 0" using d(1) rt by simp
    show "parent (nodes t1 (root t1)) = 0"
      unfolding rt m1 using d(2) prune_fields [OF np] by simp
    show "\<forall>xs ys. walk (nodes t1) (root t1) xs \<noteq> 0 \<and>
            walk (nodes t1) (root t1) xs = walk (nodes t1) (root t1) ys \<longrightarrow> xs = ys"
      unfolding rt m1 w using d(3) by (auto split: if_splits)
    show "\<forall>xs. walk (nodes t1) (root t1) xs \<noteq> 0 \<longrightarrow> length xs \<le> 32"
      unfolding rt m1 w using d(4) by (auto split: if_splits)
    show "\<forall>xs b. walk (nodes t1) (root t1) (xs @ [b]) \<noteq> 0 \<longrightarrow>
            parent (nodes t1 (walk (nodes t1) (root t1) (xs @ [b]))) = walk (nodes t1) (root t1) xs"
    proof (intro allI impI)
      fix xs b assume a: "walk (nodes t1) (root t1) (xs @ [b]) \<noteq> 0"
      then have ne: "xs @ [b] \<noteq> pre @ [c]" and wx: "walk ?m ?r (xs @ [b]) \<noteq> 0"
        unfolding rt m1 w by (auto split: if_splits)
      have "xs \<noteq> pre @ [c]" using leafw [of "[b]"] wx by auto
      then have "walk ?m2 ?r xs = walk ?m ?r xs" by (simp add: w)
      moreover have "walk ?m2 ?r (xs @ [b]) = walk ?m ?r (xs @ [b])" by (simp only: w ne if_False)
      moreover have "parent (?m (walk ?m ?r (xs @ [b]))) = walk ?m ?r xs" using d(5) wx by blast
      ultimately show "parent (nodes t1 (walk (nodes t1) (root t1) (xs @ [b]))) =
                       walk (nodes t1) (root t1) xs"
        unfolding rt m1 using prune_fields [OF np] by simp
    qed
    show "flist (nodes t1) (free t1) (node # fl)"
    proof -
      have "flist ?m2 (free t) fl"
        by (rule flist_frame [OF d(6)]) (use reach in \<open>auto simp: avail_def prune_other\<close>)
      then show ?thesis
        unfolding m1 fr using node(2) prune_fields [OF np, of ?m c "free t" node] by simp
    qed
    show "distinct (avail t1 (node # fl))"
      unfolding av using d(7) d(9) node(1) by (metis distinct.simps(2))
    show "0 \<notin> set (avail t1 (node # fl))" unfolding av using d(8) node(2) by auto
    show "\<forall>xs. walk (nodes t1) (root t1) xs \<notin> set (avail t1 (node # fl))"
    proof
      fix xs
      show "walk (nodes t1) (root t1) xs \<notin> set (avail t1 (node # fl))"
      proof (cases "xs = pre @ [c]")
        case True
        then show ?thesis unfolding rt m1 av w using d(8) node(2) by auto
      next
        case False
        then have "walk ?m ?r xs \<noteq> node" using d(3) node by metis
        with False show ?thesis unfolding rt m1 av w using d(9) by auto
      qed
    qed
  qed
qed

lemma lookup_prune:
  assumes "\<forall>ys. walk (nodes t1) (root t1) ys = (if ys = path then 0 else walk (nodes t) (root t) ys)"
    and "\<forall>q. value (nodes t1 q) = value (nodes t q)"
  shows "lookup t1 ys = (if ys = path then None else lookup t ys)"
  using assms by (simp add: lookup_def)

subsection \<open>The detaching loop and the delete\<close>

lemma delete_detach_spec:
  "tree_inv_fl t fl \<Longrightarrow> walk (nodes t) (root t) path = node \<Longrightarrow> node \<noteq> 0 \<Longrightarrow>
   path \<noteq> [] \<Longrightarrow> right (nodes t node) = 0 \<Longrightarrow> left (nodes t node) = 0 \<Longrightarrow>
   \<exists>t' fl'. delete_detach t node = Some (Inr t') \<and> tree_inv_fl t' fl' \<and>
      root t' = root t \<and> pool t' = pool t \<and> start t' = start t \<and> size_r t' = size_r t \<and>
      lookup t' path = None \<and>
      (\<forall>ys. ys \<noteq> path \<longrightarrow>
         lookup t' ys = lookup t ys \<or>
         (lookup t' ys = None \<and> lookup t ys = Some NGX_RADIX_NO_VALUE))"
proof (induction path arbitrary: t fl node rule: rev_induct)
  case Nil
  then show ?case by simp
next
  case (snoc c pre)
  let ?m = "nodes t" and ?r = "root t"
  define par where "par = walk ?m ?r pre"
  define m2 where "m2 = prune ?m par c node (free t)"
  define t1 where "t1 = t\<lparr>nodes := m2, free := node\<rparr>"
  note d = tree_inv_flD [OF snoc.prems(1)]
  note pr = tree_inv_prune [OF snoc.prems(1,2,3,5,6), folded par_def, folded m2_def, folded t1_def]
  have val: "value (nodes t1 q) = value (?m q)" for q
    using prune_fields [OF pr(5), of ?m c "free t" q] by (simp add: t1_def m2_def)
  have l1: "lookup t1 ys = (if ys = pre @ [c] then None else lookup t ys)" for ys
    using lookup_prune [OF pr(2)] val by simp
  have fields: "root t1 = ?r" "pool t1 = pool t" "start t1 = start t" "size_r t1 = size_r t"
    by (simp_all add: t1_def)
  have pm2: "parent (m2 node) = par"
    using prune_fields [OF pr(5), of ?m c "free t" node] pr(4) by (simp add: m2_def)
  have unf: "delete_detach t node =
      (if right (m2 par) \<noteq> 0 \<or> left (m2 par) \<noteq> 0 then Some (Inr t1)
       else if value (m2 par) \<noteq> NGX_RADIX_NO_VALUE then Some (Inr t1)
       else if parent (m2 par) = 0 then Some (Inr t1)
       else delete_detach t1 par)"
  proof -
    let ?m1 = "if c then ?m(par := (?m par)\<lparr>right := 0\<rparr>) else ?m(par := (?m par)\<lparr>left := 0\<rparr>)"
    have step1: "(if right (?m par) = node then ?m(par := (?m par)\<lparr>right := 0\<rparr>)
                  else ?m(par := (?m par)\<lparr>left := 0\<rparr>)) = ?m1"
      using pr(6) by simp
    have m2x: "?m1(node := (?m1 node)\<lparr>right := free t\<rparr>) = m2"
      by (simp only: m2_def prune_def Let_def)
    have t1x: "t\<lparr>nodes := m2, free := node\<rparr> = t1" by (simp only: t1_def)
    have p0: "(par = 0) = False" using pr(3) by simp
    show ?thesis
      by (subst delete_detach.simps)
         (simp only: Let_def pr(4) p0 if_False step1 m2x t1x pm2)
  qed
  have stop: ?case if "delete_detach t node = Some (Inr t1)"
  proof -
    have "lookup t1 (pre @ [c]) = None" by (simp add: l1)
    moreover have "\<forall>ys. ys \<noteq> pre @ [c] \<longrightarrow> lookup t1 ys = lookup t ys" by (simp add: l1)
    ultimately show ?thesis using that pr(1) fields
      by (intro exI [of _ t1] exI [of _ "node # fl"]) simp
  qed
  show ?case
  proof (cases "right (m2 par) \<noteq> 0 \<or> left (m2 par) \<noteq> 0 \<or>
                value (m2 par) \<noteq> NGX_RADIX_NO_VALUE \<or> parent (m2 par) = 0")
    case True
    then have "delete_detach t node = Some (Inr t1)" unfolding unf by auto
    then show ?thesis by (rule stop)
  next
    case False
    then have c: "right (m2 par) = 0" "left (m2 par) = 0"
      "value (m2 par) = NGX_RADIX_NO_VALUE" "parent (m2 par) \<noteq> 0" by simp_all
    have e: "delete_detach t node = delete_detach t1 par" unfolding unf using c by simp
    have pp: "parent (?m par) \<noteq> 0"
      using c(4) prune_fields [OF pr(5), of ?m c "free t" par] by (simp add: m2_def)
    have pre: "pre \<noteq> []"
    proof
      assume "pre = []"
      then have "par = ?r" by (simp add: par_def)
      with d(2) pp show False by simp
    qed
    have w1: "walk (nodes t1) (root t1) pre = par" using pr(2) by (simp add: par_def)
    have n1: "nodes t1 = m2" by (simp add: t1_def)
    from snoc.IH [OF pr(1) w1 pr(3) pre c(1,2) [folded n1]] obtain t' fl' where
      t': "delete_detach t1 par = Some (Inr t')" "tree_inv_fl t' fl'"
        "root t' = root t1" "pool t' = pool t1" "start t' = start t1" "size_r t' = size_r t1"
        "lookup t' pre = None"
        "\<forall>ys. ys \<noteq> pre \<longrightarrow>
           lookup t' ys = lookup t1 ys \<or>
           (lookup t' ys = None \<and> lookup t1 ys = Some NGX_RADIX_NO_VALUE)"
      by blast
    have lp: "lookup t pre = Some NGX_RADIX_NO_VALUE"
      using pr(3) c(3) val [of par] by (simp add: lookup_def par_def n1 [symmetric])
    have a: "lookup t' (pre @ [c]) = None"
      using t'(8) [rule_format, of "pre @ [c]"] l1 [of "pre @ [c]"] by auto
    have b: "lookup t' ys = lookup t ys \<or>
             (lookup t' ys = None \<and> lookup t ys = Some NGX_RADIX_NO_VALUE)"
      if "ys \<noteq> pre @ [c]" for ys
    proof (cases "ys = pre")
      case True
      then show ?thesis using t'(7) lp by simp
    next
      case False
      then show ?thesis using t'(8) [rule_format, of ys] l1 [of ys] that by simp
    qed
    show ?thesis
      using e t'(1,2,3,4,5,6) fields a b
      by (intro exI [of _ t'] exI [of _ fl']) simp
  qed
qed

lemma valued_eqI:
  assumes "\<And>ys. ys \<noteq> path \<Longrightarrow> lookup t' ys = lookup t ys \<or>
             (lookup t' ys = None \<or> lookup t' ys = Some NGX_RADIX_NO_VALUE) \<and>
             (lookup t ys = None \<or> lookup t ys = Some NGX_RADIX_NO_VALUE)"
    and "valued t' path = w"
  shows "valued t' = (valued t)(path := w)"
proof
  fix ys
  show "valued t' ys = ((valued t)(path := w)) ys"
  proof (cases "ys = path")
    case True
    then show ?thesis using assms(2) by simp
  next
    case False
    from assms(1) [OF False] have "valued t' ys = valued t ys"
      by (auto simp: valued_def)
    with False show ?thesis by simp
  qed
qed

lemma delete_descend_root:
  "delete_descend (nodes t) key msk 0x80000000 (root t) =
     walk (nodes t) (root t) (key_bits key (mask_len msk))"
  using delete_descend_walk [of "nodes t" key msk 0 "root t"]
  by (simp add: bitpos_0 path_from_key_bits mask_len_def)

lemma ngx_radix32tree_delete_spec:
  fixes t :: ngx_radix_tree_t and key msk :: uint32_t
  assumes inv: "tree_inv_fl t fl"
  shows "if mask_len msk = 0 \<and> right (nodes t (root t)) = 0 \<and> left (nodes t (root t)) = 0
         then ngx_radix32tree_delete t key msk = Some (Inl NullDeref)
         else (\<exists>rc t' fl'. ngx_radix32tree_delete t key msk = Some (Inr (rc, t')) \<and>
                 tree_inv_fl t' fl' \<and> root t' = root t \<and> nodes_left t' = nodes_left t \<and>
                 valued t' = (valued t)(key_bits key (mask_len msk) := None))"
proof -
  let ?m = "nodes t" and ?r = "root t"
  let ?path = "key_bits key (mask_len msk)"
  let ?node = "walk ?m ?r ?path"
  note d = tree_inv_flD [OF inv]
  note dd = delete_descend_root [of t key msk]
  have p0: "?path = [] \<longleftrightarrow> mask_len msk = 0" by (metis length_key_bits length_0_conv)
  show ?thesis
  proof (cases "?node = 0")
    case True
    have nf: "\<not> (mask_len msk = 0 \<and> right (?m ?r) = 0 \<and> left (?m ?r) = 0)"
    proof
      assume "mask_len msk = 0 \<and> right (?m ?r) = 0 \<and> left (?m ?r) = 0"
      then have "?path = []" using p0 by simp
      then have "?node = ?r" by simp
      with True d(1) show False by simp
    qed
    have r: "ngx_radix32tree_delete t key msk = Some (Inr (NGX_ERROR, t))"
      using True dd by (simp add: ngx_radix32tree_delete_def Let_def)
    have "valued t ?path = None" using True by (simp add: valued_def lookup_def)
    then have "(valued t)(?path := None) = valued t" by (metis fun_upd_triv)
    with r inv nf show ?thesis
      by (simp only: if_False) (intro exI [of _ NGX_ERROR] exI [of _ t] exI [of _ fl], simp)
  next
    case False
    show ?thesis
    proof (cases "right (?m ?node) \<noteq> 0 \<or> left (?m ?node) \<noteq> 0")
      case True
      have nf: "\<not> (mask_len msk = 0 \<and> right (?m ?r) = 0 \<and> left (?m ?r) = 0)"
      proof
        assume a: "mask_len msk = 0 \<and> right (?m ?r) = 0 \<and> left (?m ?r) = 0"
        then have "?path = []" using p0 by simp
        then have "?node = ?r" by simp
        with True a show False by simp
      qed
      show ?thesis
      proof (cases "value (?m ?node) = NGX_RADIX_NO_VALUE")
        case nov: True
        have r: "ngx_radix32tree_delete t key msk = Some (Inr (NGX_ERROR, t))"
          using False True nov dd by (simp add: ngx_radix32tree_delete_def Let_def)
        have "valued t ?path = None" using False nov by (simp add: valued_def lookup_def)
        then have "(valued t)(?path := None) = valued t" by (metis fun_upd_triv)
        with r inv nf show ?thesis
          by (simp only: if_False) (intro exI [of _ NGX_ERROR] exI [of _ t] exI [of _ fl], simp)
      next
        case hasv: False
        let ?t' = "t\<lparr>nodes := ?m(?node := (?m ?node)\<lparr>value := NGX_RADIX_NO_VALUE\<rparr>)\<rparr>"
        have r: "ngx_radix32tree_delete t key msk = Some (Inr (NGX_OK, ?t'))"
          using False True hasv dd by (simp add: ngx_radix32tree_delete_def Let_def)
        have inv': "tree_inv_fl ?t' fl" using inv by (rule tree_inv_set_value)
        have l: "lookup ?t' xs = (if xs = ?path then Some NGX_RADIX_NO_VALUE else lookup t xs)" for xs
          using lookup_set_value [OF inv refl False] by simp
        have "valued ?t' = (valued t)(?path := None)"
          by (rule valued_eqI) (simp_all add: l valued_def)
        moreover have "nodes_left ?t' = nodes_left t" by simp
        ultimately show ?thesis using r inv' nf
          by (simp only: if_False) (intro exI [of _ NGX_OK] exI [of _ ?t'] exI [of _ fl], simp)
      qed
    next
      case leaf: False
      then have lf: "right (?m ?node) = 0" "left (?m ?node) = 0" by simp_all
      have unf: "ngx_radix32tree_delete t key msk =
          (case delete_detach t ?node of
              None \<Rightarrow> None
            | Some (Inl f) \<Rightarrow> Some (Inl f)
            | Some (Inr t1) \<Rightarrow> Some (Inr (NGX_OK, t1)))"
        using False lf dd by (simp add: ngx_radix32tree_delete_def Let_def)
      show ?thesis
      proof (cases "?path = []")
        case True
        then have nr: "?node = ?r" by simp
        have "delete_detach t ?r = Some (Inl NullDeref)"
          using d(2) by (subst delete_detach.simps) simp
        then have "ngx_radix32tree_delete t key msk = Some (Inl NullDeref)"
          unfolding unf nr by simp
        moreover have "mask_len msk = 0 \<and> right (?m ?r) = 0 \<and> left (?m ?r) = 0"
          using True p0 lf nr by simp
        ultimately show ?thesis by simp
      next
        case ne: False
        then have nf: "\<not> (mask_len msk = 0 \<and> right (?m ?r) = 0 \<and> left (?m ?r) = 0)"
          using p0 by simp
        from delete_detach_spec [OF inv refl False ne lf] obtain t' fl' where
          t': "delete_detach t ?node = Some (Inr t')" "tree_inv_fl t' fl'"
            "root t' = root t" "pool t' = pool t" "start t' = start t" "size_r t' = size_r t"
            "lookup t' ?path = None"
            "\<forall>ys. ys \<noteq> ?path \<longrightarrow>
               lookup t' ys = lookup t ys \<or>
               (lookup t' ys = None \<and> lookup t ys = Some NGX_RADIX_NO_VALUE)"
          by blast
        have r: "ngx_radix32tree_delete t key msk = Some (Inr (NGX_OK, t'))"
          unfolding unf using t'(1) by simp
        have "valued t' = (valued t)(?path := None)"
        proof (rule valued_eqI)
          show "valued t' ?path = None" using t'(7) by (simp add: valued_def)
          show "lookup t' ys = lookup t ys \<or>
             (lookup t' ys = None \<or> lookup t' ys = Some NGX_RADIX_NO_VALUE) \<and>
             (lookup t ys = None \<or> lookup t ys = Some NGX_RADIX_NO_VALUE)"
            if "ys \<noteq> ?path" for ys
            using t'(8) that by blast
        qed
        moreover have "nodes_left t' = nodes_left t" using t'(4,6) by (simp add: nodes_left_def)
        ultimately show ?thesis using r t'(2,3) nf
          by (simp only: if_False) (intro exI [of _ NGX_OK] exI [of _ t'] exI [of _ fl'], simp)
      qed
    qed
  qed
qed

subsection \<open>The lookup returns the longest match\<close>

lemma lpm_scan_Nil [simp]: "lpm_scan S key v [] = v"
  by (simp add: lpm_scan_def)

lemma lpm_scan_Cons:
  "lpm_scan S key v (n # ns) =
     lpm_scan S key (case S (key_bits key n) of None \<Rightarrow> v | Some w \<Rightarrow> w) ns"
  by (simp add: lpm_scan_def)

lemma lpm_scan_snoc:
  "lpm_scan S key v (ns @ [n]) =
     (case S (key_bits key n) of None \<Rightarrow> lpm_scan S key v ns | Some w \<Rightarrow> w)"
  by (simp add: lpm_scan_def split: option.splits)

lemma lpm_scan_none:
  "(\<forall>n \<in> set ns. S (key_bits key n) = None) \<Longrightarrow> lpm_scan S key v ns = v"
  by (induction ns arbitrary: v) (simp_all add: lpm_scan_Cons)

lemma lpm_scan_filter:
  "lpm_scan S key v ns =
     (case filter (\<lambda>n. S (key_bits key n) \<noteq> None) (rev ns) of
        [] \<Rightarrow> v
      | n # _ \<Rightarrow> the (S (key_bits key n)))"
  by (induction ns rule: rev_induct) (auto simp: lpm_scan_snoc split: option.splits)

lemma lpm_scan_lpm: "lpm_scan S key NGX_RADIX_NO_VALUE [0 ..< 33] = lpm S key"
  unfolding lpm_def by (rule lpm_scan_filter)

lemma find_loop_spec:
  fixes t :: ngx_radix_tree_t and key :: uint32_t
  assumes depth: "\<forall>xs. walk (nodes t) (root t) xs \<noteq> 0 \<longrightarrow> length xs \<le> 32"
  shows "i \<le> 33 \<Longrightarrow>
     find_loop (nodes t) key (bitpos i) v (walk (nodes t) (root t) (key_bits key i)) =
       Some (lpm_scan (valued t) key v [i ..< 33])"
proof (induction "33 - i" arbitrary: i v)
  case 0
  then have i: "i = 33" by simp
  have "walk (nodes t) (root t) (key_bits key 33) = 0"
    using depth [rule_format, of "key_bits key 33"] by auto
  then show ?case unfolding i by (subst find_loop.simps) simp
next
  case (Suc n)
  let ?m = "nodes t" and ?r = "root t"
  let ?node = "walk ?m ?r (key_bits key i)"
  have i: "i < 33" using Suc.hyps(2) by simp
  have up: "[i ..< 33] = i # [Suc i ..< 33]" using i by (rule upt_conv_Cons)
  show ?case
  proof (cases "?node = 0")
    case True
    have "walk ?m ?r (key_bits key k) = 0" if "i \<le> k" for k
      using walk_key_bits_prefix [of ?m ?r key k i] True that by auto
    then have "\<forall>k \<in> set [i ..< 33]. valued t (key_bits key k) = None"
      by (simp add: valued_def lookup_def)
    then have "lpm_scan (valued t) key v [i ..< 33] = v" by (rule lpm_scan_none)
    then show ?thesis using True by (subst find_loop.simps) simp
  next
    case False
    let ?v' = "if value (?m ?node) \<noteq> NGX_RADIX_NO_VALUE then value (?m ?node) else v"
    have c: "(if key AND bitpos i \<noteq> 0 then right (?m ?node) else left (?m ?node)) =
             walk ?m ?r (key_bits key (Suc i))"
      using False by (simp add: key_bits_Suc walk_snoc child_def and_bitpos)
    have n: "n = 33 - Suc i" using Suc.hyps(2) by simp
    have le: "Suc i \<le> 33" using i by simp
    have "find_loop ?m key (bitpos i) v ?node =
          find_loop ?m key (bitpos (Suc i)) ?v' (walk ?m ?r (key_bits key (Suc i)))"
      using False by (subst find_loop.simps) (simp only: c bitpos_Suc One_nat_def if_True simp_thms)
    also have "\<dots> = Some (lpm_scan (valued t) key ?v' [Suc i ..< 33])"
      by (rule Suc.hyps(1) [OF n le])
    also have "?v' = (case valued t (key_bits key i) of None \<Rightarrow> v | Some w \<Rightarrow> w)"
      using False by (simp add: valued_def lookup_def)
    finally show ?thesis unfolding up lpm_scan_Cons .
  qed
qed

lemma ngx_radix32tree_find_lpm:
  assumes "tree_inv_fl t fl"
  shows "ngx_radix32tree_find t key = Some (lpm (valued t) key)"
proof -
  note d = tree_inv_flD [OF assms]
  have "key_bits key 0 = []" by (simp add: key_bits_def)
  with find_loop_spec [OF d(4), of 0 key NGX_RADIX_NO_VALUE]
  show ?thesis
    by (simp add: ngx_radix32tree_find_def bitpos_0 lpm_scan_lpm)
qed

lemma ngx_radix32tree_insert_valued:
  fixes t :: ngx_radix_tree_t and key msk :: uint32_t
  assumes inv: "tree_inv_fl t fl" and v: "v \<noteq> NGX_RADIX_NO_VALUE"
    and mem: "32 \<le> nodes_left t"
  shows "\<exists>rc t' fl'. ngx_radix32tree_insert t key msk v = Inr (rc, t') \<and>
           tree_inv_fl t' fl' \<and> root t' = root t \<and> nodes_left t \<le> nodes_left t' + 32 \<and>
           valued t' =
             (if valued t (key_bits key (mask_len msk)) = None
              then (valued t)(key_bits key (mask_len msk) \<mapsto> v) else valued t)"
proof -
  let ?path = "key_bits key (mask_len msk)"
  note d = tree_inv_flD [OF inv]
  from ngx_radix32tree_insert_spec [OF inv, of key msk v] obtain rc t' fl' where
    r: "ngx_radix32tree_insert t key msk v = Inr (rc, t')" "tree_inv_fl t' fl'" "root t' = root t"
    and busy: "rc = NGX_BUSY \<longrightarrow> t' = t \<and>
        (\<exists>w. lookup t ?path = Some w \<and> w \<noteq> NGX_RADIX_NO_VALUE)"
    and ok: "rc = NGX_OK \<longrightarrow>
        (lookup t ?path = None \<or> lookup t ?path = Some NGX_RADIX_NO_VALUE) \<and>
        (\<forall>xs. lookup t' xs =
           (if xs = ?path then Some v
            else if (\<exists>k < mask_len msk. xs = key_bits key k) \<and> lookup t xs = None
                 then Some NGX_RADIX_NO_VALUE
            else lookup t xs))"
    and decl: "rc \<noteq> NGX_DECLINED"
    and left: "\<forall>j \<le> mask_len msk. lookup t (key_bits key j) \<noteq> None \<longrightarrow>
        nodes_left t \<le> nodes_left t' + (mask_len msk - j) \<and>
        (mask_len msk - j \<le> nodes_left t \<longrightarrow> rc \<noteq> NGX_ERROR)"
    by blast
  have "key_bits key 0 = []" by (simp add: key_bits_def)
  then have "lookup t (key_bits key 0) \<noteq> None" using d(1) by (simp add: lookup_def)
  with left [rule_format, of 0] mask_len_le [of msk] mem
  have nl: "nodes_left t \<le> nodes_left t' + 32" and ne: "rc \<noteq> NGX_ERROR" by simp_all
  have val: "valued t' =
             (if valued t ?path = None then (valued t)(?path \<mapsto> v) else valued t)"
  proof (cases "rc = NGX_OK")
    case True
    with ok have a: "lookup t ?path = None \<or> lookup t ?path = Some NGX_RADIX_NO_VALUE"
      and l: "\<And>xs. lookup t' xs =
           (if xs = ?path then Some v
            else if (\<exists>k < mask_len msk. xs = key_bits key k) \<and> lookup t xs = None
                 then Some NGX_RADIX_NO_VALUE
            else lookup t xs)"
      by simp_all
    have n: "valued t ?path = None" using a by (auto simp: valued_def)
    have "valued t' = (valued t)(?path := Some v)"
    proof (rule valued_eqI)
      show "valued t' ?path = Some v" using l [of ?path] v by (simp add: valued_def)
      show "lookup t' ys = lookup t ys \<or>
             (lookup t' ys = None \<or> lookup t' ys = Some NGX_RADIX_NO_VALUE) \<and>
             (lookup t ys = None \<or> lookup t ys = Some NGX_RADIX_NO_VALUE)"
        if "ys \<noteq> ?path" for ys
        using l [of ys] that by auto
    qed
    with n show ?thesis by simp
  next
    case False
    with ne decl have "rc = NGX_BUSY" by (cases rc) simp_all
    with busy show ?thesis by (auto simp: valued_def)
  qed
  show ?thesis
    using r nl val by (intro exI [of _ rc] exI [of _ t'] exI [of _ fl']) simp
qed

subsection \<open>Sequences of inserts and deletes\<close>

lemma run_ops_table:
  "tree_inv_fl t fl \<Longrightarrow> list_all op_ok ops \<Longrightarrow> 32 * length ops \<le> nodes_left t \<Longrightarrow>
   (run_ops ops t = Some (Inl NullDeref) \<and> list_ex deletes_all ops) \<or>
   (\<exists>t' fl'. run_ops ops t = Some (Inr t') \<and> tree_inv_fl t' fl' \<and>
       valued t' = table ops (valued t))"
proof (induction ops arbitrary: t fl)
  case Nil
  then show ?case by auto
next
  case (Cons o1 ops)
  show ?case
  proof (cases o1)
    case (Insert32 key msk v)
    have v: "v \<noteq> NGX_RADIX_NO_VALUE" using Cons.prems(2) Insert32 by simp
    have mem: "32 \<le> nodes_left t" using Cons.prems(3) by simp
    from ngx_radix32tree_insert_valued [OF Cons.prems(1) v mem, of key msk]
    obtain rc t1 fl1 where
      r: "ngx_radix32tree_insert t key msk v = Inr (rc, t1)" "tree_inv_fl t1 fl1"
        "nodes_left t \<le> nodes_left t1 + 32"
        "valued t1 = (if valued t (key_bits key (mask_len msk)) = None
              then (valued t)(key_bits key (mask_len msk) \<mapsto> v) else valued t)"
      by blast
    have ok: "list_all op_ok ops" using Cons.prems(2) by simp
    have m1: "32 * length ops \<le> nodes_left t1" using Cons.prems(3) r(3) by simp
    have e: "run_ops (o1 # ops) t = run_ops ops t1" using r(1) Insert32 by simp
    have tb: "table (o1 # ops) (valued t) = table ops (valued t1)"
      unfolding Insert32 r(4) by simp
    from Cons.IH [OF r(2) ok m1] show ?thesis unfolding e tb by auto
  next
    case (Delete32 key msk)
    have ok: "list_all op_ok ops" using Cons.prems(2) by simp
    note sp = ngx_radix32tree_delete_spec [OF Cons.prems(1), of msk key]
    show ?thesis
    proof (cases "mask_len msk = 0 \<and> right (nodes t (root t)) = 0 \<and> left (nodes t (root t)) = 0")
      case True
      with sp have "ngx_radix32tree_delete t key msk = Some (Inl NullDeref)" by simp
      then have "run_ops (o1 # ops) t = Some (Inl NullDeref)" using Delete32 by simp
      moreover have "list_ex deletes_all (o1 # ops)" using True Delete32 by simp
      ultimately show ?thesis by simp
    next
      case False
      with sp obtain rc t1 fl1 where
        r: "ngx_radix32tree_delete t key msk = Some (Inr (rc, t1))" "tree_inv_fl t1 fl1"
          "nodes_left t1 = nodes_left t"
          "valued t1 = (valued t)(key_bits key (mask_len msk) := None)"
        by (simp only: if_False) blast
      have m1: "32 * length ops \<le> nodes_left t1" using Cons.prems(3) r(3) by simp
      have e: "run_ops (o1 # ops) t = run_ops ops t1" using r(1) Delete32 by simp
      have tb: "table (o1 # ops) (valued t) = table ops (valued t1)"
        unfolding Delete32 r(4) by simp
      from Cons.IH [OF r(2) ok m1] show ?thesis unfolding e tb by auto
    qed
  qed
qed

lemma find_after_longest_prefix:
  assumes "tree_inv_fl t fl" and "list_all op_ok ops" and "32 * length ops \<le> nodes_left t"
  shows "(find_after ops t key = Some (Inl NullDeref) \<and> list_ex deletes_all ops) \<or>
         find_after ops t key = Some (Inr (lpm (table ops (valued t)) key))"
proof -
  from run_ops_table [OF assms] show ?thesis
  proof
    assume "run_ops ops t = Some (Inl NullDeref) \<and> list_ex deletes_all ops"
    then show ?thesis by (simp add: find_after_def)
  next
    assume "\<exists>t' fl'. run_ops ops t = Some (Inr t') \<and> tree_inv_fl t' fl' \<and>
       valued t' = table ops (valued t)"
    then obtain t' fl' where t': "run_ops ops t = Some (Inr t')" "tree_inv_fl t' fl'"
      "valued t' = table ops (valued t)" by blast
    from ngx_radix32tree_find_lpm [OF t'(2), of key] t'(1,3)
    show ?thesis by (simp add: find_after_def)
  qed
qed

lemma kbit_and: "kbit (a AND b) i \<longleftrightarrow> kbit a i \<and> kbit b i"
  by (auto simp: kbit_def bit_and_iff)

lemma key_bits_eq_iff: "key_bits a n = key_bits b n \<longleftrightarrow> (\<forall>i < n. kbit a i = kbit b i)"
  by (auto simp: key_bits_def)

lemma prefix_match_iff:
  assumes p: "p AND prefix_mask n = p"
  shows "k AND prefix_mask n = p \<longleftrightarrow> key_bits k n = key_bits p n"
proof
  assume e: "k AND prefix_mask n = p"
  show "key_bits k n = key_bits p n"
    unfolding key_bits_eq_iff
  proof (intro allI impI)
    fix i assume i: "i < n"
    have "kbit p i = kbit (k AND prefix_mask n) i" using e by simp
    also have "\<dots> = (kbit k i \<and> i < 32)" using i by (simp add: kbit_and kbit_prefix_mask)
    also have "\<dots> = kbit k i" by (auto simp: kbit_def)
    finally show "kbit k i = kbit p i" by simp
  qed
next
  assume e: "key_bits k n = key_bits p n"
  show "k AND prefix_mask n = p"
  proof (rule word_eq_kbit)
    fix i
    have pi: "kbit p i = (kbit p i \<and> i < n \<and> i < 32)"
      using arg_cong [OF p, of "\<lambda>w. kbit w i"] by (simp add: kbit_and kbit_prefix_mask)
    show "kbit (k AND prefix_mask n) i = kbit p i"
    proof (cases "i < n")
      case True
      then have "kbit k i = kbit p i" using e by (simp add: key_bits_eq_iff)
      moreover have "kbit p i \<longrightarrow> i < 32" by (simp add: kbit_def)
      ultimately show ?thesis using True by (auto simp: kbit_and kbit_prefix_mask)
    next
      case False
      with pi show ?thesis by (simp add: kbit_and kbit_prefix_mask)
    qed
  qed
qed

lemma full_to_valued: "full_to t l 0 \<Longrightarrow> valued t = (\<lambda>xs. None)"
  by (rule ext) (simp add: valued_def full_to_def)

lemma create_empty:
  assumes fresh: "os_fresh pl" and mem: "enough_memory pl (Suc n)"
  shows "\<exists>t fl. ngx_radix_tree_create pl 0 = Some (Inr (Some t)) \<and> tree_inv_fl t fl \<and>
           valued t = (\<lambda>xs. None) \<and> n \<le> nodes_left t"
proof -
  obtain tp pool1 where pa: "ngx_palloc pl sizeof_ngx_radix_tree_t = (tp, pool1)"
    by (cases "ngx_palloc pl sizeof_ngx_radix_tree_t")
  with mem have tp: "tp \<noteq> 0" and m: "Suc n \<le> 128 * pages_left pool1"
    by (simp_all add: enough_memory_def pages_left_nodes)
  let ?t0 = "\<lparr>root = 0, pool = pool1, free = 0, start = 0, size_r = 0,
               nodes = (\<lambda>a. \<lparr>right = 0, left = 0, parent = 0, value = 0\<rparr>)\<rparr>"
  obtain r t1 where a: "ngx_radix_alloc ?t0 = (r, t1)" by (cases "ngx_radix_alloc ?t0")
  let ?t2 = "t1\<lparr>root := r,
                nodes := (nodes t1)(r := \<lparr>right = 0, left = 0, parent = 0,
                                          value = NGX_RADIX_NO_VALUE\<rparr>)\<rparr>"
  have f1: "os_fresh pool1"
    using os_fresh_suffix [OF fresh] ngx_palloc_os(1) [of pl sizeof_ngx_radix_tree_t] pa by simp
  have m1: "0 < pages_left pool1" using m by (cases "pages_left pool1") simp_all
  note ra = root_alloc [OF f1 m1 a]
  from ra(2) obtain fl where inv: "tree_inv_fl ?t2 fl" by blast
  have "ngx_radix_tree_create pl 0 = Some (Inr (Some ?t2))"
    using pa tp a ra(1) by (simp add: ngx_radix_tree_create_def Let_def)
  moreover have "n \<le> nodes_left ?t2" using m ra(4) by simp
  ultimately show ?thesis using inv full_to_valued [OF ra(3)] by blast
qed

lemma find_after_create_longest_prefix:
  assumes "os_fresh pl" and "enough_memory pl (Suc (32 * length ops))"
    and "list_all op_ok ops"
  shows "\<exists>t. ngx_radix_tree_create pl 0 = Some (Inr (Some t)) \<and>
           (\<forall>key. (find_after ops t key = Some (Inl NullDeref) \<and> list_ex deletes_all ops) \<or>
                   find_after ops t key = Some (Inr (lpm (table ops (\<lambda>xs. None)) key)))"
proof -
  from create_empty [OF assms(1,2)] obtain t fl where
    t: "ngx_radix_tree_create pl 0 = Some (Inr (Some t))" "tree_inv_fl t fl"
      "valued t = (\<lambda>xs. None)" "32 * length ops \<le> nodes_left t"
    by blast
  from find_after_longest_prefix [OF t(2) assms(3) t(4)] t(1,3) show ?thesis by auto
qed

subsection \<open>Lookups after inserts and deletes\<close>

text \<open>
  C1. On the empty tree created with \<open>preallocate = 0\<close>, the insert of the prefix
  \<open>0.0.0.0/0\<close> with the value 7 stores the value in the root, and a lookup of
  \<open>192.168.0.1\<close> returns 7. The delete of that prefix then finds the root, which has no
  children, and faults on the null parent pointer of the root: there is no tree left in
  which a lookup would return \<open>NGX_RADIX_NO_VALUE\<close>. A sequence of operations that
  does not run into this fault leaves a tree in which every lookup returns the longest
  match (\<open>find_after_create_longest_prefix\<close>).
\<close>

theorem find_after_default_route_delete:
  "find_after [Insert32 0 0 7] tree_empty 0xC0A80001 = Some (Inr 7) \<and>
   find_after [Insert32 0 0 7, Delete32 0 0] tree_empty 0xC0A80001 = Some (Inl NullDeref)"
  by code_simp

end
